theory Spec2Isabelle
  imports Complex_Main "HOL-Library.Signed_Division" "HOL-Library.AList"
begin

section \<open>Modular arithmetic (src/app/modular.tsx)\<close>

text \<open>
  The numbers of the source are JavaScript numbers (binary floating point with a significand
  of 53 bits) that hold integers; they are modelled as \<^typ>\<open>int\<close>. Every integer up to
  \<open>2 ^ 53\<close> in absolute value is such a number. A sum, difference or product of two of them
  is the exact result rounded to the nearest number with a significand of 53 bits, a tie
  going to the even significand: that is \<open>js_round\<close> of the exact result, and it changes
  nothing up to \<open>2 ^ 53\<close>. (Results of \<open>2 ^ 1024\<close> and more are infinite in the source; no
  statement below reaches them.)

  \<open>sig_shift m\<close> is the number of low bits that a non-negative \<open>m\<close> loses when it is cut
  to 53 bits.
\<close>

function sig_shift :: "int \<Rightarrow> nat" where
  "sig_shift m = (if m < 2 ^ 53 then 0 else Suc (sig_shift (m div 2)))"
  by pat_completeness auto
termination
  by (relation "measure nat") auto

declare sig_shift.simps [simp del]

definition js_round :: "int \<Rightarrow> int" where
  "js_round x =
     (if \<bar>x\<bar> < 2 ^ 53 then x
      else
        (let k = sig_shift \<bar>x\<bar>;
             m = \<bar>x\<bar> div 2 ^ k;
             r = \<bar>x\<bar> mod 2 ^ k;
             h = 2 ^ (k - 1);
             m' = (if r < h then m else if h < r then m + 1 else if even m then m else m + 1)
         in sgn x * (m' * 2 ^ k)))"

text \<open>\<^verbatim>\<open>a + b\<close>, \<^verbatim>\<open>a - b\<close> and \<^verbatim>\<open>a * b\<close> on such numbers.\<close>

definition js_add :: "int \<Rightarrow> int \<Rightarrow> int" where
  "js_add a b = js_round (a + b)"


definition js_mul :: "int \<Rightarrow> int \<Rightarrow> int" where
  "js_mul a b = js_round (a * b)"

text \<open>
  On integers \<^verbatim>\<open>a % m\<close> is the remainder of the division truncated towards zero (it takes
  the sign of \<^verbatim>\<open>a\<close>), which is \<open>a smod m\<close>; the source computes it without rounding. The
  source never evaluates it with a zero divisor except where noted.
\<close>

definition modNorm :: "int \<Rightarrow> int \<Rightarrow> int" where
  "modNorm a m =
     (if m = 0 then a
      else (let r = a smod m in if r < 0 then js_add r \<bar>m\<bar> else r))"

text \<open>
  The loop of \<^verbatim>\<open>egcd\<close>: the three parallel assignments of one iteration become the
  arguments of the recursive call. The second argument shrinks in absolute value.

  The loop is modelled in exact integers: \<^verbatim>\<open>Math.trunc(a / b)\<close> is the truncated quotient
  \<open>a sdiv b\<close>, and the products and differences are not rounded. This is the source's
  computation as long as the two inputs are below \<open>2 ^ 53\<close> in absolute value: the floating
  point quotient of a dividend below \<open>2 ^ 53\<close> truncates to the exact quotient, and no
  remainder, coefficient or product of the loop exceeds the larger input in absolute value.
  The statements
  below that speak of all inputs of \<open>egcd\<close> or \<open>modInv\<close> carry this bound; beyond it the
  source rounds and the model does not.
\<close>

function egcd_loop :: "int \<Rightarrow> int \<Rightarrow> int \<Rightarrow> int \<Rightarrow> int \<Rightarrow> int \<Rightarrow> int \<times> int \<times> int" where
  "egcd_loop a b x0 x1 y0 y1 =
     (if b \<noteq> 0 then
        (let q = a sdiv b
         in egcd_loop b (a - q * b) x1 (x0 - q * x1) y1 (y0 - q * y1))
      else (\<bar>a\<bar>, x0, y0))"
  by pat_completeness auto
termination
  by (relation "measure (\<lambda>(a, b, x0, x1, y0, y1). nat \<bar>b\<bar>)")
     (auto simp: minus_sdiv_mult_eq_smod signed_modulo_int_def abs_mult abs_sgn_eq)

declare egcd_loop.simps [simp del]

text \<open>The result \<^verbatim>\<open>{ g, x, y }\<close> is the triple \<open>(g, x, y)\<close>.\<close>

definition egcd :: "int \<Rightarrow> int \<Rightarrow> int \<times> int \<times> int" where
  "egcd a b = egcd_loop a b 1 0 0 1"

text \<open>\<^verbatim>\<open>null\<close> is \<open>None\<close>.\<close>

definition modInv :: "int \<Rightarrow> int \<Rightarrow> int option" where
  "modInv a m =
     (case egcd a m of (g, x, y) \<Rightarrow>
        if g \<noteq> 1 then None else Some (modNorm x m))"




section \<open>Relations over a universe (page.tsx)\<close>

text \<open>
  An element is a string and a pair is a two-element array. A \<^verbatim>\<open>Set<Elem>\<close> that the code
  iterates (the universe) is the list of its members in insertion order; a set that is only
  tested and extended is a HOL set. A \<^verbatim>\<open>Map\<close> that maps elements to arrays is an association
  list in insertion order: \<^verbatim>\<open>set\<close> on a present key replaces the value in place, on a new key
  it appends, which is \<^const>\<open>AList.update\<close>.
\<close>

type_synonym Elem = string
type_synonym Pair = "Elem \<times> Elem"
type_synonym adjacency = "(Elem \<times> Elem list) list"

definition pairKey :: "Elem \<Rightarrow> Elem \<Rightarrow> string" where
  "pairKey a b = a @ ''|||'' @ b"

text \<open>\<^verbatim>\<open>m.get(k) ?? []\<close>\<close>

definition adj_get :: "adjacency \<Rightarrow> Elem \<Rightarrow> Elem list" where
  "adj_get adj v = (case map_of adj v of None \<Rightarrow> [] | Some bs \<Rightarrow> bs)"

subsection \<open>transitiveClosureFromCovers\<close>

definition adj_push :: "Pair \<Rightarrow> adjacency \<Rightarrow> adjacency" where
  "adj_push p adj = (case p of (a, b) \<Rightarrow> AList.update a (adj_get adj a @ [b]) adj)"

definition buildAdj :: "Pair list \<Rightarrow> adjacency" where
  "buildAdj covers = fold adj_push covers []"

record closure_state =
  seen :: "string set"
  result :: "Pair list"

definition addPair :: "Elem \<Rightarrow> Elem \<Rightarrow> closure_state \<Rightarrow> closure_state" where
  "addPair a b st =
     (let k = pairKey a b
      in if k \<notin> seen st
         then st\<lparr>seen := insert k (seen st), result := result st @ [(a, b)]\<rparr>
         else st)"

text \<open>
  The search from one source \<open>a\<close>. The stack is the array of the source: \<^verbatim>\<open>pop\<close> takes
  its last element and \<^verbatim>\<open>push\<close> appends.
\<close>

function dfs :: "adjacency \<Rightarrow> Elem \<Rightarrow> Elem set \<Rightarrow> Elem list \<Rightarrow> closure_state \<Rightarrow> closure_state" where
  "dfs adj a visited stack st =
     (if stack = [] then st
      else
        (let v = last stack; rest = butlast stack
         in if v \<in> visited then dfs adj a visited rest st
            else dfs adj a (insert v visited)
                   (rest @ filter (\<lambda>nxt. nxt \<notin> insert v visited) (adj_get adj v))
                   (addPair a v st)))"
  by pat_completeness auto
termination
proof (relation "inv_image (less_than <*lex*> less_than)
    (\<lambda>(adj, a, visited, stack, st). (card (fst ` set adj - visited), length stack))")
  show "wf (inv_image (less_than <*lex*> less_than)
    (\<lambda>(adj :: adjacency, a :: Elem, visited :: Elem set, stack :: Elem list, st :: closure_state).
       (card (fst ` set adj - visited), length stack)))"
    by (intro wf_inv_image wf_lex_prod wf_less_than)
next
  fix adj :: adjacency and a :: Elem and visited :: "Elem set" and stack :: "Elem list"
    and st :: closure_state and x xa
  assume "stack \<noteq> []" "x = last stack" "xa = butlast stack" "x \<in> visited"
  then show "((adj, a, visited, xa, st), (adj, a, visited, stack, st))
    \<in> inv_image (less_than <*lex*> less_than)
        (\<lambda>(adj, a, visited, stack, st). (card (fst ` set adj - visited), length stack))"
    by simp
next
  fix adj :: adjacency and a :: Elem and visited :: "Elem set" and stack :: "Elem list"
    and st :: closure_state and x xa
  assume h: "stack \<noteq> []" "x = last stack" "xa = butlast stack" "x \<notin> visited"
  show "((adj, a, insert x visited,
          xa @ filter (\<lambda>nxt. nxt \<notin> insert x visited) (adj_get adj x), addPair a x st),
         (adj, a, visited, stack, st))
    \<in> inv_image (less_than <*lex*> less_than)
        (\<lambda>(adj, a, visited, stack, st). (card (fst ` set adj - visited), length stack))"
  proof (cases "x \<in> fst ` set adj")
    case True
    have "fst ` set adj - insert x visited \<subset> fst ` set adj - visited"
      using True h(4) by blast
    then have "card (fst ` set adj - insert x visited) < card (fst ` set adj - visited)"
      by (intro psubset_card_mono) simp_all
    then show ?thesis by simp
  next
    case False
    then have "map_of adj x = None" by (simp add: map_of_eq_None_iff)
    then have e: "adj_get adj x = []" by (simp add: adj_get_def)
    have "fst ` set adj - insert x visited = fst ` set adj - visited"
      using False by blast
    with e h show ?thesis by simp
  qed
qed

declare dfs.simps [simp del]

definition closure_step :: "adjacency \<Rightarrow> Elem \<Rightarrow> closure_state \<Rightarrow> closure_state" where
  "closure_step adj a st = dfs adj a {} (adj_get adj a) (addPair a a st)"

definition transitiveClosureFromCovers :: "Elem list \<Rightarrow> Pair list \<Rightarrow> Pair list" where
  "transitiveClosureFromCovers U covers =
     result (fold (closure_step (buildAdj covers)) U \<lparr>seen = {}, result = []\<rparr>)"

subsection \<open>coversFromRelation\<close>

text \<open>The inner loop over the universe, which stops at the first intermediate element.\<close>

fun hasIntermediate :: "string set \<Rightarrow> Elem \<Rightarrow> Elem \<Rightarrow> Elem list \<Rightarrow> bool" where
  "hasIntermediate relSet a b [] = False"
| "hasIntermediate relSet a b (c # cs) =
     (if c = a \<or> c = b then hasIntermediate relSet a b cs
      else if pairKey a c \<in> relSet \<and> pairKey c b \<in> relSet then True
      else hasIntermediate relSet a b cs)"

fun coversLoop :: "Elem list \<Rightarrow> string set \<Rightarrow> Pair list \<Rightarrow> Pair list \<Rightarrow> Pair list" where
  "coversLoop U relSet [] covers = covers"
| "coversLoop U relSet ((a, b) # ps) covers =
     (if a = b then coversLoop U relSet ps covers
      else if a \<notin> set U \<or> b \<notin> set U then coversLoop U relSet ps covers
      else if \<not> hasIntermediate relSet a b U then coversLoop U relSet ps (covers @ [(a, b)])
      else coversLoop U relSet ps covers)"

definition coversFromRelation :: "Elem list \<Rightarrow> Pair list \<Rightarrow> string set \<Rightarrow> Pair list" where
  "coversFromRelation U relPairs relSet = coversLoop U relSet relPairs []"

subsection \<open>relationSet and relationProps\<close>

definition relationSet :: "Pair list \<Rightarrow> string set" where
  "relationSet relationPairs = fold (\<lambda>(a, b) s. insert (pairKey a b) s) relationPairs {}"

record RelationProps =
  reflexive :: bool
  reflexiveMissing :: "Elem option"
  symmetric :: bool
  symmetricWitness :: "Pair option"
  antisymmetric :: bool
  antisymmetricWitness :: "Pair option"
  transitive :: bool
  transitiveWitness :: "(Pair \<times> Pair \<times> Pair) option"

text \<open>
  Each check is a loop that leaves at the first violation; \<^const>\<open>List.find\<close> returns that
  first element. The transitivity check nests two loops and leaves both at once.
\<close>

fun transitiveLoop :: "string set \<Rightarrow> Pair list \<Rightarrow> Pair list \<Rightarrow> (Pair \<times> Pair \<times> Pair) option" where
  "transitiveLoop relSet rel [] = None"
| "transitiveLoop relSet rel ((a, b) # ps) =
     (case List.find (\<lambda>(c, d). b = c \<and> pairKey a d \<notin> relSet) rel of
        Some (c, d) \<Rightarrow> Some ((a, b), (c, d), (a, d))
      | None \<Rightarrow> transitiveLoop relSet rel ps)"

definition relationProps :: "Elem list \<Rightarrow> Pair list \<Rightarrow> string set \<Rightarrow> RelationProps" where
  "relationProps U relationPairs relSet =
     (let reflexiveMissing = List.find (\<lambda>x. pairKey x x \<notin> relSet) U;
          symmetricWitness = List.find (\<lambda>(a, b). pairKey b a \<notin> relSet) relationPairs;
          antisymmetricWitness =
            List.find (\<lambda>(a, b). a \<noteq> b \<and> pairKey b a \<in> relSet) relationPairs;
          transitiveWitness = transitiveLoop relSet relationPairs relationPairs
      in \<lparr>reflexive = (reflexiveMissing = None),
          reflexiveMissing = reflexiveMissing,
          symmetric = (symmetricWitness = None),
          symmetricWitness = symmetricWitness,
          antisymmetric = (antisymmetricWitness = None),
          antisymmetricWitness = antisymmetricWitness,
          transitive = (transitiveWitness = None),
          transitiveWitness = transitiveWitness\<rparr>)"

section \<open>Hasse diagram layout (page.tsx)\<close>

text \<open>
  The universe is an array here. \<open>preds\<close> and \<open>succs\<close> map each element to a
  \<^verbatim>\<open>Set<Elem>\<close> that the code iterates, kept as the list of its members in insertion
  order; \<open>set_add\<close> is \<^verbatim>\<open>Set.add\<close>. Every lookup \<^verbatim>\<open>preds.get(u)!\<close> is at a key
  that the first loop has set, so the empty default of \<^const>\<open>adj_get\<close> is never taken
  there.
\<close>

definition set_add :: "Elem \<Rightarrow> Elem list \<Rightarrow> Elem list" where
  "set_add x xs = (if x \<in> set xs then xs else xs @ [x])"

definition initSets :: "Elem list \<Rightarrow> adjacency" where
  "initSets universe = fold (\<lambda>u m. AList.update u [] m) universe []"

definition addEdge :: "Elem list \<Rightarrow> Pair \<Rightarrow> adjacency \<times> adjacency \<Rightarrow> adjacency \<times> adjacency" where
  "addEdge universe p ps =
     (case p of (a, b) \<Rightarrow> case ps of (preds, succs) \<Rightarrow>
        if a \<notin> set universe \<or> b \<notin> set universe then (preds, succs)
        else (AList.update b (set_add a (adj_get preds b)) preds,
              AList.update a (set_add b (adj_get succs a)) succs))"

definition buildPredsSuccs :: "Elem list \<Rightarrow> Pair list \<Rightarrow> adjacency \<times> adjacency" where
  "buildPredsSuccs universe covers =
     fold (addEdge universe) covers (initSets universe, initSets universe)"

text \<open>
  \<open>levelMap\<close> is only read and written by key: a map. The queue is an array.

  The levels are counted in exact natural numbers. \<^verbatim>\<open>lv + 1\<close> of the source is exact as
  long as the level is below \<open>2 ^ 53\<close>, and after \<open>n\<close> turns of the worklist loop no level
  exceeds \<open>n\<close> (lemma \<open>stateAfter_level\<close> below), so the model and the source agree on the
  first \<open>2 ^ 53\<close> turns of every call. From there on the source rounds \<open>2 ^ 53 + 1\<close> to
  \<open>2 ^ 53\<close> and a level stops growing, which the model does not follow. An array of the
  source holds at most \<open>2 ^ 32 - 1\<close> entries, where \<^verbatim>\<open>push\<close> raises an error; the list of the
  model has no such limit.
\<close>

type_synonym levels = "Elem \<rightharpoonup> nat"

definition seedStep :: "adjacency \<Rightarrow> Elem \<Rightarrow> levels \<times> Elem list \<Rightarrow> levels \<times> Elem list" where
  "seedStep preds u s =
     (case s of (levelMap, queue) \<Rightarrow>
        if length (adj_get preds u) = 0 then (levelMap(u \<mapsto> 0), queue @ [u])
        else (levelMap, queue))"

definition seedQueue :: "Elem list \<Rightarrow> adjacency \<Rightarrow> levels \<times> Elem list" where
  "seedQueue universe preds =
     (case fold (seedStep preds) universe (Map.empty, []) of (levelMap, queue) \<Rightarrow>
        (case universe of
           u0 # _ \<Rightarrow> if queue = [] then (levelMap(u0 \<mapsto> 0), [u0]) else (levelMap, queue)
         | [] \<Rightarrow> (levelMap, queue)))"

text \<open>One turn of the inner loop over the successors of \<open>v\<close>, whose level \<open>lv\<close> was read before.\<close>

definition relaxEdge :: "nat \<Rightarrow> Elem \<Rightarrow> levels \<times> Elem list \<Rightarrow> levels \<times> Elem list" where
  "relaxEdge lv w s =
     (case s of (levelMap, queue) \<Rightarrow>
        (let candidate = lv + 1
         in case levelMap w of
              None \<Rightarrow> (levelMap(w \<mapsto> candidate), queue @ [w])
            | Some cur \<Rightarrow>
                if candidate > cur then (levelMap(w \<mapsto> candidate), queue @ [w])
                else (levelMap, queue)))"

definition relaxNode :: "adjacency \<Rightarrow> Elem \<Rightarrow> levels \<times> Elem list \<Rightarrow> levels \<times> Elem list" where
  "relaxNode succs v s =
     (case s of (levelMap, queue) \<Rightarrow>
        (let lv = (case levelMap v of None \<Rightarrow> 0 | Some l \<Rightarrow> l)
         in fold (relaxEdge lv) (adj_get succs v) (levelMap, queue)))"

text \<open>
  The worklist loop \<^verbatim>\<open>while (queue.length)\<close>. With exact levels nothing bounds the number
  of its turns, so it is a partial function: \<open>None\<close> is the loop that never ends.
\<close>

partial_function (option) relaxLoop :: "adjacency \<Rightarrow> levels \<times> Elem list \<Rightarrow> levels option" where
  "relaxLoop succs s =
     (case s of (levelMap, queue) \<Rightarrow>
        (case queue of
           [] \<Rightarrow> Some levelMap
         | v # rest \<Rightarrow> relaxLoop succs (relaxNode succs v (levelMap, rest))))"

declare relaxLoop.simps [code]

text \<open>
  One turn of the worklist loop, to count the turns: the body of \<^verbatim>\<open>while (queue.length)\<close>
  on a queue that is not empty, and no change on an empty one, where the loop has ended.
\<close>

definition relaxTurn :: "adjacency \<Rightarrow> levels \<times> Elem list \<Rightarrow> levels \<times> Elem list" where
  "relaxTurn succs s =
     (case s of (levelMap, queue) \<Rightarrow>
        (case queue of
           [] \<Rightarrow> (levelMap, [])
         | v # rest \<Rightarrow> relaxNode succs v (levelMap, rest)))"

definition fillMissing :: "Elem list \<Rightarrow> levels \<Rightarrow> levels" where
  "fillMissing universe levelMap =
     fold (\<lambda>u m. if m u = None then m(u \<mapsto> 0) else m) universe levelMap"

text \<open>The level map as the loop leaves it, and after the missing elements got level 0.\<close>

definition relaxedLevels :: "Elem list \<Rightarrow> Pair list \<Rightarrow> levels option" where
  "relaxedLevels universe covers =
     (case buildPredsSuccs universe covers of (preds, succs) \<Rightarrow>
        relaxLoop succs (seedQueue universe preds))"

text \<open>
  The level map and the queue of a call after the first \<open>n\<close> turns of its worklist loop.
\<close>

definition stateAfter :: "nat \<Rightarrow> Elem list \<Rightarrow> Pair list \<Rightarrow> levels \<times> Elem list" where
  "stateAfter n universe covers =
     (case buildPredsSuccs universe covers of (preds, succs) \<Rightarrow>
        (relaxTurn succs ^^ n) (seedQueue universe preds))"

definition hasseLevels :: "Elem list \<Rightarrow> Pair list \<Rightarrow> levels option" where
  "hasseLevels universe covers =
     map_option (fillMissing universe) (relaxedLevels universe covers)"

text \<open>
  Grouping by level: \<open>levels\<close> is a \<^verbatim>\<open>Map<number, Elem[]>\<close> in insertion order, then
  sorted by its keys, which are distinct. \<^verbatim>\<open>levelMap.get(u)!\<close> is read after every element
  of the universe has been given a level.
\<close>

definition groupStep :: "levels \<Rightarrow> Elem \<Rightarrow> (nat \<times> Elem list) list \<Rightarrow> (nat \<times> Elem list) list" where
  "groupStep levelMap u groups =
     (let lv = (case levelMap u of None \<Rightarrow> 0 | Some l \<Rightarrow> l)
      in AList.update lv ((case map_of groups lv of None \<Rightarrow> [] | Some us \<Rightarrow> us) @ [u]) groups)"

definition sortedLevels :: "Elem list \<Rightarrow> levels \<Rightarrow> (nat \<times> Elem list) list" where
  "sortedLevels universe levelMap = sort_key fst (fold (groupStep levelMap) universe [])"

text \<open>
  The coordinates are quotients of integers; they are kept exact, as rationals, where the
  source computes them in floating point. The fields \<^verbatim>\<open>id\<close>, \<^verbatim>\<open>x\<close> and \<^verbatim>\<open>y\<close> of a position
  are \<open>node_id\<close>, \<open>pos_x\<close> and \<open>pos_y\<close>.
\<close>

record HasseNodePos =
  node_id :: Elem
  pos_x :: rat
  pos_y :: rat

definition placeLevel :: "rat \<Rightarrow> nat \<Rightarrow> nat \<times> Elem list \<Rightarrow> HasseNodePos list" where
  "placeLevel vStep maxLevel g =
     (case g of (lvl, nodes) \<Rightarrow>
        (let hStep = 600 / (of_nat (length nodes) + 1)
         in map (\<lambda>(i, u). \<lparr>node_id = u,
                            pos_x = (of_nat i + 1) * hStep,
                            pos_y = (of_nat maxLevel - of_nat lvl + 1) * vStep\<rparr>)
              (enumerate 0 nodes)))"

definition positions :: "Elem list \<Rightarrow> levels \<Rightarrow> HasseNodePos list" where
  "positions universe levelMap =
     (let sl = sortedLevels universe levelMap;
          vStep = 380 / (of_nat (length sl) + 1);
          maxLevel = (if length sl > 0 then fst (last sl) else 0)
      in concat (map (placeLevel vStep maxLevel) sl))"

definition layoutHasse :: "Elem list \<Rightarrow> Pair list \<Rightarrow> HasseNodePos list option" where
  "layoutHasse universe covers =
     map_option (positions universe) (hasseLevels universe covers)"

section \<open>Notions used in the statements and proofs\<close>

text \<open>
  The cover edges that the layout keeps: both endpoints are in the universe.
\<close>

definition in_edges :: "Elem list \<Rightarrow> Pair list \<Rightarrow> Pair set" where
  "in_edges universe covers =
     {(a, b). (a, b) \<in> set covers \<and> a \<in> set universe \<and> b \<in> set universe}"

text \<open>
  The invariant of the worklist loop: every queued element has a level, and every element
  that has a level and is not queued lies strictly below each of its successors.
\<close>

definition relax_inv :: "adjacency \<Rightarrow> levels \<times> Elem list \<Rightarrow> bool" where
  "relax_inv succs s =
     (case s of (L, q) \<Rightarrow>
        set q \<subseteq> dom L \<and>
        (\<forall>v lv. L v = Some lv \<longrightarrow> v \<notin> set q \<longrightarrow>
           (\<forall>w \<in> set (adj_get succs v). \<exists>lw. L w = Some lw \<and> lv < lw)))"

text \<open>
  A bound for the termination of the worklist loop on acyclic input: \<open>lev\<close> reads a level
  with the default 0, \<open>h\<close> bounds the levels from above, and the potential is the total
  room left below the bound.
\<close>

definition lev :: "levels \<Rightarrow> Elem \<Rightarrow> nat" where
  "lev L v = (case L v of None \<Rightarrow> 0 | Some l \<Rightarrow> l)"

definition potential :: "(Elem \<Rightarrow> nat) \<Rightarrow> Elem set \<Rightarrow> levels \<Rightarrow> nat" where
  "potential h S L = (\<Sum>v \<in> S. h v + 1 - lev L v)"

definition bounded_by :: "(Elem \<Rightarrow> nat) \<Rightarrow> levels \<Rightarrow> bool" where
  "bounded_by h L = (\<forall>v l. L v = Some l \<longrightarrow> l \<le> h v)"

text \<open>
  An element is free of the separator's character when it holds no \<open>|\<close>. The key of a
  pair determines the pair if the first component is such an element (\<open>pairKey_inj\<close>
  below); \<open>good\<close> says that the \<open>seen\<close> set of the closure holds exactly the keys of
  the pairs emitted so far, all with such a first component.
\<close>

definition sep_free :: "Elem \<Rightarrow> bool" where
  "sep_free a = (CHR ''|'' \<notin> set a)"

definition keyOf :: "Pair \<Rightarrow> string" where
  "keyOf p = pairKey (fst p) (snd p)"

definition good :: "closure_state \<Rightarrow> bool" where
  "good st = (seen st = keyOf ` set (result st) \<and> (\<forall>p \<in> set (result st). sep_free (fst p)))"

text \<open>
  The edges that an adjacency structure holds, and what one search from \<open>a\<close> achieves:
  \<open>V\<close> is the set of visited elements when the search ends.
\<close>

definition adj_edges :: "adjacency \<Rightarrow> Pair set" where
  "adj_edges adj = {(u, w). w \<in> set (adj_get adj u)}"

definition dfs_post ::
  "adjacency \<Rightarrow> Elem \<Rightarrow> Elem set \<Rightarrow> Elem list \<Rightarrow> closure_state \<Rightarrow> closure_state \<Rightarrow> bool" where
  "dfs_post adj a visited stack st st' =
     (\<exists>V. good st' \<and>
          set (result st') = set (result st) \<union> {a} \<times> (V - visited) \<and>
          visited \<subseteq> V \<and> set stack \<subseteq> V \<and>
          (\<forall>u \<in> V - visited. set (adj_get adj u) \<subseteq> V) \<and>
          V \<subseteq> visited \<union> {w. \<exists>s \<in> set stack. (s, w) \<in> (adj_edges adj)\<^sup>*})"

text \<open>
  The groups of the layout are sound when their keys are distinct and each group holds
  elements of its own level only; \<open>vStep_of\<close> and \<open>maxLevel_of\<close> name the two
  quantities that \<open>positions\<close> computes from the sorted groups.
\<close>

definition groups_ok :: "levels \<Rightarrow> (nat \<times> Elem list) list \<Rightarrow> bool" where
  "groups_ok L gs =
     (distinct (map fst gs) \<and> (\<forall>l us. map_of gs l = Some us \<longrightarrow> (\<forall>u \<in> set us. lev L u = l)))"

definition vStep_of :: "Elem list \<Rightarrow> levels \<Rightarrow> rat" where
  "vStep_of U L = 380 / (of_nat (length (sortedLevels U L)) + 1)"

definition maxLevel_of :: "Elem list \<Rightarrow> levels \<Rightarrow> nat" where
  "maxLevel_of U L =
     (if length (sortedLevels U L) > 0 then fst (last (sortedLevels U L)) else 0)"

text \<open>
  A cover list is irredundant when no pair of it is implied by a path through its other
  pairs (such a path has at least two edges).
\<close>

definition irredundant :: "Pair list \<Rightarrow> bool" where
  "irredundant H = (\<forall>e \<in> set H. e \<notin> (set H - {e})\<^sup>+)"

section \<open>Properties of the modular arithmetic\<close>

subsection \<open>Normalisation and the extended Euclid loop\<close>

lemma js_round_exact: "\<bar>x\<bar> \<le> 2 ^ 53 \<Longrightarrow> js_round x = x"
proof (cases "\<bar>x\<bar> < 2 ^ 53")
  case True
  then show ?thesis by (simp add: js_round_def)
next
  case False
  assume "\<bar>x\<bar> \<le> 2 ^ 53"
  with False have e: "\<bar>x\<bar> = 2 ^ 53" by simp
  have k: "sig_shift (2 ^ 53) = 1"
    by (subst sig_shift.simps, simp, subst sig_shift.simps, simp)
  have "sgn x * \<bar>x\<bar> = x" by (simp add: sgn_mult_abs)
  with e k show ?thesis by (simp add: js_round_def Let_def)
qed

lemma modNorm_pos: "0 < m \<Longrightarrow> m \<le> 2 ^ 53 \<Longrightarrow> modNorm a m = a mod m"
proof -
  assume m: "0 < m" and mb: "m \<le> 2 ^ 53"
  have nn: "\<not> a mod m < 0" and lt: "a mod m < m" using m by (simp_all add: not_less)
  show ?thesis
  proof (cases "sgn a \<noteq> sgn m \<and> \<not> m dvd a")
    case True
    then have sm: "a smod m = a mod m - m"
      by (simp add: signed_modulo_int_eq_modulo_int)
    have "0 \<le> a mod m" using m by simp
    with lt mb have "\<bar>a mod m\<bar> \<le> 2 ^ 53" by simp
    then have "js_round (a mod m) = a mod m" by (rule js_round_exact)
    with sm m lt show ?thesis by (simp add: modNorm_def Let_def js_add_def)
  next
    case False
    then have "a smod m = a mod m"
      by (auto simp add: signed_modulo_int_eq_modulo_int)
    with m nn show ?thesis by (simp add: modNorm_def Let_def)
  qed
qed

lemma gcd_step: "gcd b (a - q * b) = gcd a b" for a b q :: int
proof -
  have "gcd b (a - q * b) = gcd b ((- q) * b + a)" by (simp add: algebra_simps)
  also have "\<dots> = gcd b a" by (rule gcd_add_mult)
  finally show ?thesis by (simp add: gcd.commute)
qed

lemma egcd_loop_gcd: "fst (egcd_loop a b x0 x1 y0 y1) = gcd a b"
proof (induction a b x0 x1 y0 y1 rule: egcd_loop.induct)
  case (1 a b x0 x1 y0 y1)
  show ?case
  proof (cases "b = 0")
    case True
    then show ?thesis by (simp add: egcd_loop.simps)
  next
    case False
    with 1 show ?thesis by (simp add: egcd_loop.simps[of a b] Let_def gcd_step)
  qed
qed

lemma egcd_loop_bezout_abs:
  "a = A * x0 + B * y0 \<Longrightarrow> b = A * x1 + B * y1 \<Longrightarrow>
   egcd_loop a b x0 x1 y0 y1 = (g, x, y) \<Longrightarrow> \<bar>A * x + B * y\<bar> = g"
proof (induction a b x0 x1 y0 y1 rule: egcd_loop.induct)
  case (1 a b x0 x1 y0 y1)
  show ?case
  proof (cases "b = 0")
    case True
    with 1 show ?thesis by (auto simp: egcd_loop.simps)
  next
    case False
    let ?q = "a sdiv b"
    have eq: "a - ?q * b = A * (x0 - ?q * x1) + B * (y0 - ?q * y1)"
      using 1(2,3) by (simp add: algebra_simps)
    from False 1(4)
    have rec: "egcd_loop b (a - ?q * b) x1 (x0 - ?q * x1) y1 (y0 - ?q * y1) = (g, x, y)"
      by (simp add: egcd_loop.simps[of a b] Let_def)
    from 1(1)[OF False refl 1(3) eq rec] show ?thesis .
  qed
qed

lemma egcd_loop_bezout_nonneg:
  "0 \<le> a \<Longrightarrow> 0 \<le> b \<Longrightarrow> a = A * x0 + B * y0 \<Longrightarrow> b = A * x1 + B * y1 \<Longrightarrow>
   egcd_loop a b x0 x1 y0 y1 = (g, x, y) \<Longrightarrow> A * x + B * y = g"
proof (induction a b x0 x1 y0 y1 rule: egcd_loop.induct)
  case (1 a b x0 x1 y0 y1)
  show ?case
  proof (cases "b = 0")
    case True
    with 1 show ?thesis by (auto simp: egcd_loop.simps)
  next
    case False
    let ?q = "a sdiv b"
    have eq: "a - ?q * b = A * (x0 - ?q * x1) + B * (y0 - ?q * y1)"
      using 1(4,5) by (simp add: algebra_simps)
    have "a - ?q * b = a smod b" by (simp add: minus_sdiv_mult_eq_smod)
    also have "\<dots> = a mod b" using 1(2,3) by (simp add: smod_mod_positive)
    finally have nn: "0 \<le> a - ?q * b" using 1(3) False by simp
    from False 1(6)
    have rec: "egcd_loop b (a - ?q * b) x1 (x0 - ?q * x1) y1 (y0 - ?q * y1) = (g, x, y)"
      by (simp add: egcd_loop.simps[of a b] Let_def)
    from 1(1)[OF False refl 1(3) nn 1(5) eq rec] show ?thesis .
  qed
qed

lemma egcd_gcd: "fst (egcd a b) = gcd a b"
  by (simp add: egcd_def egcd_loop_gcd)

lemma egcd_bezout_abs: "egcd a b = (g, x, y) \<Longrightarrow> \<bar>a * x + b * y\<bar> = g"
  unfolding egcd_def by (rule egcd_loop_bezout_abs[where ?x0.0 = 1 and ?y0.0 = 0 and ?x1.0 = 0 and ?y1.0 = 1]) simp_all

lemma egcd_bezout_nonneg:
  "0 \<le> a \<Longrightarrow> 0 \<le> b \<Longrightarrow> egcd a b = (g, x, y) \<Longrightarrow> a * x + b * y = g"
  unfolding egcd_def
  by (rule egcd_loop_bezout_nonneg[where ?x0.0 = 1 and ?y0.0 = 0 and ?x1.0 = 0 and ?y1.0 = 1]) simp_all

lemma modInv_None_iff: "modInv a n = None \<longleftrightarrow> gcd a n \<noteq> 1"
proof -
  obtain g x y where e: "egcd a n = (g, x, y)" by (cases "egcd a n") auto
  then have "g = gcd a n" using egcd_gcd[of a n] by simp
  with e show ?thesis by (simp add: modInv_def)
qed

lemma modInv_range:
  "1 \<le> n \<Longrightarrow> n \<le> 2 ^ 53 \<Longrightarrow> modInv a n = Some i \<Longrightarrow> 0 \<le> i \<and> i < n"
  by (auto simp: modInv_def modNorm_pos split: prod.splits if_splits)

lemma modInv_nonneg_inverse:
  assumes a: "0 \<le> a" and n: "1 \<le> n" and nb: "n \<le> 2 ^ 53" and i: "modInv a n = Some i"
  shows "(a * i) mod n = 1 mod n"
proof -
  obtain g x y where e: "egcd a n = (g, x, y)" by (cases "egcd a n") auto
  with i have g: "g = 1" and ix: "i = modNorm x n"
    by (auto simp: modInv_def split: if_splits)
  from n nb have ix': "i = x mod n" using ix by (simp add: modNorm_pos)
  from egcd_bezout_nonneg[OF a _ e] n g have bz: "a * x + n * y = 1" by simp
  have "(a * i) mod n = (a * x) mod n" unfolding ix' by (simp add: mod_mult_right_eq)
  also have "\<dots> = (a * x + n * y) mod n" by simp
  finally show ?thesis by (simp add: bz)
qed


text \<open>
  Claim C4 says that for all integers \<open>a\<close> and \<open>b\<close> the result \<open>(g, x, y)\<close> of \<open>egcd\<close>
  satisfies \<open>g = a * x + b * y\<close> with \<open>g\<close> the non-negative greatest common divisor. The
  function returns \<open>\<bar>a\<bar>\<close> of the last remainder but leaves \<open>x\<close> and \<open>y\<close> as they are, so
  when that remainder is negative the identity holds for \<open>- g\<close> only (lemma
  \<open>egcd_bezout_abs\<close>): at \<open>a = - 1\<close>, \<open>b = 5\<close> the result is \<open>(1, 1, 0)\<close> and
  \<open>(- 1) * 1 + 5 * 0 = - 1\<close>. The first component is the greatest common divisor for all
  inputs (\<open>egcd_gcd\<close>), and the identity holds for non-negative inputs
  (\<open>egcd_bezout_nonneg\<close>).
\<close>

theorem egcd_negative_bezout_fails:
  "egcd (- 1) 5 = (1, 1, 0) \<and> (- 1) * 1 + 5 * 0 \<noteq> (1 :: int)"
  by (simp add: egcd_def egcd_loop.simps signed_divide_int_def)

subsection \<open>Modular inverse\<close>

text \<open>
  Claim C3, as stated, asks for \<open>modNorm (a * modInv a n) n = 1\<close> whenever the inverse is
  not null, for every integer \<open>a\<close> and every \<open>n \<ge> 1\<close>. For \<open>n = 1\<close> every residue is 0, so
  the product cannot be 1: \<open>modInv 3 1\<close> is 0 and the normalised product is 0.
\<close>

theorem modInv_counterexample:
  "(1::int) \<le> 1 \<and> modInv 3 1 = Some 0 \<and> modNorm (js_mul 3 0) 1 \<noteq> 1"
  by (simp add: modInv_def egcd_def egcd_loop.simps signed_divide_int_def modNorm_def
      signed_modulo_int_def js_mul_def js_round_def)

text \<open>
  The product \<open>a * modInv a n\<close> is a floating point product. When it passes \<open>2 ^ 53\<close> it
  is rounded before it is reduced, and the identity is lost although the inverse is right:
  \<open>1000000006\<close> is its own inverse modulo \<open>1000000007\<close>, the exact square is
  \<open>1000000012000000036\<close>, the rounded one \<open>1000000012000000000\<close>.
\<close>

lemma modInv_rounded_product_example:
  "modInv 1000000006 1000000007 = Some 1000000006 \<and>
   js_mul 1000000006 1000000006 = 1000000012000000000 \<and>
   modNorm (js_mul 1000000006 1000000006) 1000000007 = 999999972"
  by (simp add: modInv_def egcd_def egcd_loop.simps signed_divide_int_def modNorm_def
      signed_modulo_int_def js_add_def js_mul_def js_round_def sig_shift.simps Let_def)

text \<open>
  For a negative \<open>a\<close> the Bezout coefficient can have the wrong sign (only
  \<open>egcd_bezout_abs\<close> holds there), and then the value returned is not an inverse.
\<close>

lemma modInv_negative_example:
  "modInv (- 1) 5 = Some 1 \<and> modNorm (js_mul (- 1) 1) 5 = 4"
  by (simp add: modInv_def egcd_def egcd_loop.simps signed_divide_int_def modNorm_def
      signed_modulo_int_def js_mul_def js_add_def js_round_def)

text \<open>
  Claim C3, amended: for every integer \<open>a\<close> with \<open>\<bar>a\<bar> < 2 ^ 53\<close> and every \<open>n\<close> with
  \<open>1 \<le> n < 2 ^ 53\<close>, \<open>modInv a n\<close> is null if and only if \<open>egcd \<bar>a\<bar> n\<close> has \<open>g \<noteq> 1\<close>; a
  non-null result lies in \<open>[0, n)\<close>; and for \<open>a \<ge> 0\<close> with \<open>a * n \<le> 2 ^ 53\<close> the normalised
  product \<open>a * modInv a n\<close> is \<open>modNorm 1 n\<close>, which is 1 for \<open>n \<ge> 2\<close> and 0 for \<open>n = 1\<close>.
\<close>

theorem modInv_spec:
  "1 \<le> n \<Longrightarrow> n < 2 ^ 53 \<Longrightarrow> \<bar>a\<bar> < 2 ^ 53 \<Longrightarrow>
     (modInv a n = None \<longleftrightarrow> fst (egcd \<bar>a\<bar> n) \<noteq> 1) \<and>
     (\<forall>i. modInv a n = Some i \<longrightarrow>
        0 \<le> i \<and> i < n \<and>
        (0 \<le> a \<and> a * n \<le> 2 ^ 53 \<longrightarrow> modNorm (js_mul a i) n = modNorm 1 n))"
proof (intro conjI allI impI)
  show "modInv a n = None \<longleftrightarrow> fst (egcd \<bar>a\<bar> n) \<noteq> 1"
    by (simp add: modInv_None_iff egcd_gcd)
next
  fix i
  assume n: "1 \<le> n" and nb: "n < 2 ^ 53" and i: "modInv a n = Some i"
  from modInv_range[OF n _ i] nb show "0 \<le> i" by simp
next
  fix i
  assume n: "1 \<le> n" and nb: "n < 2 ^ 53" and i: "modInv a n = Some i"
  from modInv_range[OF n _ i] nb show "i < n" by simp
next
  fix i
  assume n: "1 \<le> n" and nb: "n < 2 ^ 53" and i: "modInv a n = Some i"
    and a: "0 \<le> a \<and> a * n \<le> 2 ^ 53"
  from modInv_range[OF n _ i] nb have ir: "0 \<le> i" "i < n" by simp_all
  from a ir have "a * i \<le> a * n" by (simp add: mult_left_mono)
  with a ir have "\<bar>a * i\<bar> \<le> 2 ^ 53" by simp
  then have p: "js_mul a i = a * i" unfolding js_mul_def by (rule js_round_exact)
  from a n nb i have "(a * i) mod n = 1 mod n"
    by (intro modInv_nonneg_inverse) simp_all
  with n nb p show "modNorm (js_mul a i) n = modNorm 1 n" by (simp add: modNorm_pos)
qed

theorem modInv_spec_witness:
  "modInv 7 12 = Some 7 \<and> modNorm (js_mul 7 7) 12 = 1"
proof -
  have h: "(1::int) \<le> 12" "(12::int) < 2 ^ 53" "\<bar>7::int\<bar> < 2 ^ 53" by simp_all
  have v: "modInv 7 12 = Some 7"
    by (simp add: modInv_def egcd_def egcd_loop.simps signed_divide_int_def modNorm_def
        signed_modulo_int_def js_add_def js_round_def)
  have m: "modNorm 1 12 = 1" by (simp add: modNorm_def signed_modulo_int_def)
  from modInv_spec[OF h] v m show ?thesis by simp
qed

subsection \<open>Linear congruences\<close>






section \<open>Properties of the closure and the reduction\<close>

lemmas cl_ev = transitiveClosureFromCovers_def closure_step_def buildAdj_def adj_push_def
  adj_get_def addPair_def pairKey_def dfs.simps Let_def

subsection \<open>Keys of pairs\<close>

lemma takeWhile_pairKey:
  "sep_free a \<Longrightarrow> takeWhile (\<lambda>c. c \<noteq> CHR ''|'') (pairKey a b) = a"
  unfolding pairKey_def sep_free_def
  by (subst takeWhile_append2) auto

lemma pairKey_inj:
  assumes "sep_free a" "sep_free a'" "pairKey a b = pairKey a' b'"
  shows "a = a' \<and> b = b'"
proof -
  from takeWhile_pairKey[OF assms(1), of b] takeWhile_pairKey[OF assms(2), of b'] assms(3)
  have "a = a'" by simp
  with assms(3) show ?thesis by (simp add: pairKey_def)
qed

lemma relationSet_keys: "relationSet R = keyOf ` set R"
proof -
  have "fold (\<lambda>(a, b) s. insert (pairKey a b) s) R S = S \<union> keyOf ` set R" for S
    by (induction R arbitrary: S) (auto simp: keyOf_def)
  then show ?thesis by (simp add: relationSet_def)
qed

lemma key_mem_iff:
  assumes "\<forall>p \<in> set R. sep_free (fst p)" and "sep_free a"
  shows "pairKey a b \<in> relationSet R \<longleftrightarrow> (a, b) \<in> set R"
proof
  assume "pairKey a b \<in> relationSet R"
  then obtain p where p: "p \<in> set R" "pairKey a b = keyOf p" by (auto simp: relationSet_keys)
  with assms(1) have "sep_free (fst p)" by blast
  from pairKey_inj[OF assms(2) this, of b "snd p"] p(2) have "p = (a, b)"
    by (simp add: keyOf_def prod_eq_iff)
  with p(1) show "(a, b) \<in> set R" by simp
next
  assume "(a, b) \<in> set R"
  then show "pairKey a b \<in> relationSet R" by (force simp: relationSet_keys keyOf_def)
qed

subsection \<open>The adjacency lists and the search\<close>

lemma adj_get_update:
  "adj_get (AList.update k v al) x = (if x = k then v else adj_get al x)"
  by (simp add: adj_get_def update_conv')

lemma adj_get_fold_push:
  "adj_get (fold adj_push H adj0) v = adj_get adj0 v @ map snd (filter (\<lambda>p. fst p = v) H)"
proof (induction H arbitrary: adj0)
  case Nil
  then show ?case by simp
next
  case (Cons p H)
  obtain a b where p: "p = (a, b)" by (cases p) auto
  show ?case using Cons.IH[of "adj_push p adj0"] p
    by (simp add: adj_push_def adj_get_update)
qed

lemma set_adj_get_buildAdj: "set (adj_get (buildAdj H) v) = {b. (v, b) \<in> set H}"
proof -
  have "adj_get (buildAdj H) v = map snd (filter (\<lambda>p. fst p = v) H)"
    by (simp add: buildAdj_def adj_get_fold_push) (simp add: adj_get_def)
  then show ?thesis by force
qed

lemma adj_edges_buildAdj: "adj_edges (buildAdj H) = set H"
  by (auto simp: adj_edges_def set_adj_get_buildAdj)

lemma addPair_good:
  assumes "sep_free a" "good st"
  shows "good (addPair a b st)" and "set (result (addPair a b st)) = insert (a, b) (set (result st))"
proof -
  show "good (addPair a b st)"
    using assms by (auto simp: addPair_def good_def keyOf_def Let_def)
  show "set (result (addPair a b st)) = insert (a, b) (set (result st))"
  proof (cases "pairKey a b \<in> seen st")
    case True
    with assms(2) obtain p where p: "p \<in> set (result st)" "pairKey a b = keyOf p"
      by (auto simp: good_def)
    with assms have "sep_free (fst p)" by (simp add: good_def)
    from pairKey_inj[OF assms(1) this, of b "snd p"] p(2) have "p = (a, b)"
      by (simp add: keyOf_def prod_eq_iff)
    with p(1) True show ?thesis by (auto simp: addPair_def)
  next
    case False
    then show ?thesis by (simp add: addPair_def)
  qed
qed

lemma dfs_correct:
  "sep_free a \<Longrightarrow> good st \<Longrightarrow> dfs_post adj a visited stack st (dfs adj a visited stack st)"
proof (induction adj a visited stack st rule: dfs.induct)
  case (1 adj a visited stack st)
  show ?case
  proof (cases "stack = []")
    case True
    then have "dfs adj a visited stack st = st" by (simp add: dfs.simps)
    with 1(4) True show ?thesis
      unfolding dfs_post_def by (intro exI[of _ visited]) simp
  next
    case ne: False
    define v where "v = last stack"
    define rest where "rest = butlast stack"
    have stk: "set stack = insert v (set rest)"
      using ne unfolding v_def rest_def
      by (metis append_butlast_last_id list.simps(15) rotate1.simps(2) set_rotate1)
    show ?thesis
    proof (cases "v \<in> visited")
      case True
      with ne have eq: "dfs adj a visited stack st = dfs adj a visited rest st"
        by (subst dfs.simps) (simp add: v_def rest_def Let_def)
      from 1(1)[OF ne v_def rest_def True 1(3) 1(4)]
      obtain V where V: "good (dfs adj a visited rest st)"
        "set (result (dfs adj a visited rest st)) = set (result st) \<union> {a} \<times> (V - visited)"
        "visited \<subseteq> V" "set rest \<subseteq> V"
        "\<forall>u \<in> V - visited. set (adj_get adj u) \<subseteq> V"
        "V \<subseteq> visited \<union> {w. \<exists>s \<in> set rest. (s, w) \<in> (adj_edges adj)\<^sup>*}"
        unfolding dfs_post_def by blast
      have "set stack \<subseteq> V" using stk True V(3,4) by auto
      moreover have "V \<subseteq> visited \<union> {w. \<exists>s \<in> set stack. (s, w) \<in> (adj_edges adj)\<^sup>*}"
        using V(6) stk by auto
      ultimately show ?thesis unfolding dfs_post_def eq using V(1,2,3,5) by blast
    next
      case False
      define visited' where "visited' = insert v visited"
      define stack' where "stack' = rest @ filter (\<lambda>nxt. nxt \<notin> insert v visited) (adj_get adj v)"
      define st1 where "st1 = addPair a v st"
      from False ne have eq: "dfs adj a visited stack st = dfs adj a visited' stack' st1"
        by (subst dfs.simps) (simp add: v_def rest_def Let_def visited'_def stack'_def st1_def)
      have g1: "good st1" and r1: "set (result st1) = insert (a, v) (set (result st))"
        unfolding st1_def using addPair_good[OF 1(3) 1(4)] by simp_all
      from 1(2)[OF ne v_def rest_def False 1(3) g1[unfolded st1_def]]
      obtain V where V: "good (dfs adj a visited' stack' st1)"
        "set (result (dfs adj a visited' stack' st1)) = set (result st1) \<union> {a} \<times> (V - visited')"
        "visited' \<subseteq> V" "set stack' \<subseteq> V"
        "\<forall>u \<in> V - visited'. set (adj_get adj u) \<subseteq> V"
        "V \<subseteq> visited' \<union> {w. \<exists>s \<in> set stack'. (s, w) \<in> (adj_edges adj)\<^sup>*}"
        unfolding dfs_post_def visited'_def stack'_def st1_def by blast
      have vV: "v \<in> V" using V(3) by (simp add: visited'_def)
      have a1: "set (result (dfs adj a visited' stack' st1)) =
          set (result st) \<union> {a} \<times> (V - visited)"
        using V(2) r1 vV False by (auto simp: visited'_def)
      have a2: "visited \<subseteq> V" using V(3) by (auto simp: visited'_def)
      have a3: "set stack \<subseteq> V" using stk vV V(4) by (auto simp: stack'_def)
      have sv: "set (adj_get adj v) \<subseteq> V"
        using V(3,4) by (auto simp: stack'_def visited'_def)
      have a4: "\<forall>u \<in> V - visited. set (adj_get adj u) \<subseteq> V"
        using V(5) sv by (auto simp: visited'_def)
      have a5: "V \<subseteq> visited \<union> {w. \<exists>s \<in> set stack. (s, w) \<in> (adj_edges adj)\<^sup>*}"
      proof
        fix w assume "w \<in> V"
        with V(6) consider "w \<in> visited'" | s where "s \<in> set stack'" "(s, w) \<in> (adj_edges adj)\<^sup>*"
          by blast
        then show "w \<in> visited \<union> {w. \<exists>s \<in> set stack. (s, w) \<in> (adj_edges adj)\<^sup>*}"
        proof cases
          case 1
          then show ?thesis using stk by (auto simp: visited'_def)
        next
          case 2
          from 2(1) consider "s \<in> set rest" | "s \<in> set (adj_get adj v)"
            by (auto simp: stack'_def)
          then show ?thesis
          proof cases
            case 1
            with 2(2) stk show ?thesis by auto
          next
            case 2
            then have "(v, s) \<in> adj_edges adj" by (simp add: adj_edges_def)
            with \<open>(s, w) \<in> (adj_edges adj)\<^sup>*\<close> have "(v, w) \<in> (adj_edges adj)\<^sup>*"
              by (meson converse_rtrancl_into_rtrancl)
            with stk show ?thesis by auto
          qed
        qed
      qed
      show ?thesis unfolding dfs_post_def eq
        using V(1) a1 a2 a3 a4 a5 by blast
    qed
  qed
qed

lemma closure_step_correct:
  assumes a: "sep_free a" and g: "good st"
  shows "good (closure_step (buildAdj H) a st)"
    and "set (result (closure_step (buildAdj H) a st)) =
           set (result st) \<union> {(x, y). x = a \<and> (x, y) \<in> (set H)\<^sup>*}"
proof -
  let ?adj = "buildAdj H"
  let ?st1 = "addPair a a st"
  have g1: "good ?st1" and r1: "set (result ?st1) = insert (a, a) (set (result st))"
    using addPair_good[OF a g] by simp_all
  from dfs_correct[OF a g1, of ?adj "{}" "adj_get ?adj a"]
  obtain V where V: "good (closure_step ?adj a st)"
    "set (result (closure_step ?adj a st)) = set (result ?st1) \<union> {a} \<times> V"
    "set (adj_get ?adj a) \<subseteq> V"
    "\<forall>u \<in> V. set (adj_get ?adj u) \<subseteq> V"
    "V \<subseteq> {w. \<exists>s \<in> set (adj_get ?adj a). (s, w) \<in> (set H)\<^sup>*}"
    unfolding dfs_post_def closure_step_def adj_edges_buildAdj by auto
  show "good (closure_step ?adj a st)" by (rule V(1))
  have sub: "V \<subseteq> {w. (a, w) \<in> (set H)\<^sup>+}"
  proof
    fix w assume "w \<in> V"
    with V(5) obtain s where "s \<in> set (adj_get ?adj a)" "(s, w) \<in> (set H)\<^sup>*" by blast
    then have "(a, s) \<in> set H" by (simp add: set_adj_get_buildAdj)
    with \<open>(s, w) \<in> (set H)\<^sup>*\<close> show "w \<in> {w. (a, w) \<in> (set H)\<^sup>+}" by auto
  qed
  have sup: "w \<in> V" if "(a, w) \<in> (set H)\<^sup>+" for w
    using that
  proof (induction rule: trancl_induct)
    case (base y)
    then show ?case using V(3) by (auto simp: set_adj_get_buildAdj)
  next
    case (step y z)
    then show ?case using V(4) by (auto simp: set_adj_get_buildAdj)
  qed
  from sub sup have "V = {w. (a, w) \<in> (set H)\<^sup>+}" by blast
  with V(2) r1 show "set (result (closure_step ?adj a st)) =
           set (result st) \<union> {(x, y). x = a \<and> (x, y) \<in> (set H)\<^sup>*}"
    by (auto simp: rtrancl_eq_or_trancl)
qed

lemma fold_closure_step:
  "\<forall>a \<in> set U. sep_free a \<Longrightarrow> good st \<Longrightarrow>
     good (fold (closure_step (buildAdj H)) U st) \<and>
     set (result (fold (closure_step (buildAdj H)) U st)) =
       set (result st) \<union> {(x, y). x \<in> set U \<and> (x, y) \<in> (set H)\<^sup>*}"
proof (induction U arbitrary: st)
  case Nil
  then show ?case by simp
next
  case (Cons a U)
  from Cons.prems have a: "sep_free a" and U: "\<forall>a \<in> set U. sep_free a" by simp_all
  note S = closure_step_correct[OF a Cons.prems(2), of H]
  from Cons.IH[OF U S(1)] S(2) show ?case by auto
qed

text \<open>
  With elements free of the separator's character the closure is, as a set, the pairs
  \<open>(x, y)\<close> with \<open>x\<close> in \<open>U\<close> and \<open>y\<close> reachable from \<open>x\<close> along the pairs of \<open>H\<close>, all
  pairs of \<open>H\<close> taken: nothing restricts \<open>y\<close> to \<open>U\<close>. The output stays inside \<open>U\<close> when \<open>H\<close>
  does.
\<close>

lemma closure_set:
  assumes "\<forall>a \<in> set U. sep_free a"
  shows "set (transitiveClosureFromCovers U H) = {(x, y). x \<in> set U \<and> (x, y) \<in> (set H)\<^sup>*}"
proof -
  have "good \<lparr>seen = {}, result = []\<rparr>" by (simp add: good_def)
  from fold_closure_step[OF assms this, of H] show ?thesis
    by (simp add: transitiveClosureFromCovers_def)
qed

lemma closure_inside_universe:
  assumes "\<forall>a \<in> set U. sep_free a" and "set H \<subseteq> set U \<times> set U"
    and "(a, b) \<in> set (transitiveClosureFromCovers U H)"
  shows "a \<in> set U \<and> b \<in> set U"
proof -
  from assms(1,3) have a: "a \<in> set U" and r: "(a, b) \<in> (set H)\<^sup>*" by (simp_all add: closure_set)
  from r have "b = a \<or> b \<in> snd ` set H" by (induction rule: rtrancl_induct) force+
  with a assms(2) show ?thesis by auto
qed

text \<open>
  Claim C1 says that the closure drops the pairs of \<open>H\<close> whose endpoints are not both in
  \<open>U\<close>: every pair of the output has both components in \<open>U\<close>, and the output is that of
  \<open>H\<close> filtered to \<open>U\<close>. The function builds its adjacency lists from every pair and tests
  no endpoint, so the target of an edge that leaves \<open>U\<close> is emitted: with \<open>U = {1}\<close> and
  \<open>H = [(1, 2)]\<close> the output holds \<open>(1, 2)\<close>, and it differs from the output on the
  filtered list.
\<close>

theorem closure_keeps_outside_target:
  "transitiveClosureFromCovers [''1''] [(''1'', ''2'')] = [(''1'', ''1''), (''1'', ''2'')] \<and>
   ''2'' \<notin> set [''1''] \<and>
   transitiveClosureFromCovers [''1'']
     (filter (\<lambda>(a, b). a \<in> set [''1''] \<and> b \<in> set [''1'']) [(''1'', ''2'')]) = [(''1'', ''1'')]"
  by (simp add: cl_ev)

subsection \<open>Reflexivity of the closure\<close>

lemma closure_reflexive_unambiguous:
  "\<forall>a \<in> set U. sep_free a \<Longrightarrow> x \<in> set U \<Longrightarrow> (x, x) \<in> set (transitiveClosureFromCovers U H)"
  by (simp add: closure_set)

text \<open>
  Claim C6 says that every \<open>x\<close> of \<open>U\<close> has \<open>(x, x)\<close> in the closure, whatever \<open>H\<close> is.
  Duplicates are suppressed by the string \<open>pairKey a b\<close>, and two different pairs can have
  the same key: \<open>pairKey a |a|\<close> and \<open>pairKey a| a|\<close> are both \<open>a||||a|\<close>, although no
  element holds the separator \<open>|||\<close>. The diagonal pair of \<open>a|\<close> is then taken for a
  duplicate of the pair \<open>(a, |a|)\<close> emitted before, and left out. With elements that hold
  no \<open>|\<close> the claim holds (\<open>closure_reflexive_unambiguous\<close>).
\<close>

theorem closure_drops_diagonal_on_key_clash:
  "transitiveClosureFromCovers [''a'', ''|a|'', ''a|''] [(''a'', ''|a|'')] =
     [(''a'', ''a''), (''a'', ''|a|''), (''|a|'', ''|a|'')] \<and>
   ''a|'' \<in> set [''a'', ''|a|'', ''a|''] \<and>
   (''a|'', ''a|'') \<notin> set (transitiveClosureFromCovers [''a'', ''|a|'', ''a|''] [(''a'', ''|a|'')])"
  by (simp add: cl_ev)

subsection \<open>The reduction and the round trip\<close>

lemma hasIntermediate_iff:
  "hasIntermediate relSet a b U \<longleftrightarrow>
     (\<exists>c \<in> set U. c \<noteq> a \<and> c \<noteq> b \<and> pairKey a c \<in> relSet \<and> pairKey c b \<in> relSet)"
  by (induction U) auto

lemma coversLoop_set:
  "set (coversLoop U relSet ps acc) =
     set acc \<union> {(a, b). (a, b) \<in> set ps \<and> a \<noteq> b \<and> a \<in> set U \<and> b \<in> set U \<and>
                   \<not> hasIntermediate relSet a b U}"
  by (induction U relSet ps acc rule: coversLoop.induct) auto

lemma coversFromRelation_set:
  "set (coversFromRelation U R relSet) =
     {(a, b). (a, b) \<in> set R \<and> a \<noteq> b \<and> a \<in> set U \<and> b \<in> set U \<and>
              \<not> hasIntermediate relSet a b U}"
  by (simp add: coversFromRelation_def coversLoop_set)

lemma trancl_avoid_edge:
  assumes "(x, y) \<in> E\<^sup>+"
  shows "(x, y) \<in> (E - {e})\<^sup>+ \<or> ((x, fst e) \<in> E\<^sup>* \<and> (snd e, y) \<in> E\<^sup>*)"
  using assms
proof (induction rule: trancl_induct)
  case (base y)
  show ?case
  proof (cases "(x, y) = e")
    case True
    then show ?thesis by auto
  next
    case False
    with base show ?thesis by auto
  qed
next
  case (step y z)
  show ?case
  proof (cases "(y, z) = e")
    case True
    with step(1) show ?thesis by (auto simp: trancl_into_rtrancl)
  next
    case False
    with step(2) have yz: "(y, z) \<in> E - {e}" by simp
    from step(3) show ?thesis
    proof
      assume "(x, y) \<in> (E - {e})\<^sup>+"
      with yz show ?thesis by (meson trancl.trancl_into_trancl)
    next
      assume "(x, fst e) \<in> E\<^sup>* \<and> (snd e, y) \<in> E\<^sup>*"
      with step(2) show ?thesis by (meson rtrancl.rtrancl_into_rtrancl)
    qed
  qed
qed

lemma roundtrip_unambiguous:
  assumes sf: "\<forall>a \<in> set U. sep_free a"
    and dom: "set H \<subseteq> set U \<times> set U"
    and ac: "acyclic (set H)"
    and irr: "irredundant H"
  shows "set (coversFromRelation U (transitiveClosureFromCovers U H)
                (relationSet (transitiveClosureFromCovers U H))) = set H"
proof -
  let ?E = "set H"
  let ?R = "transitiveClosureFromCovers U H"
  have R: "set ?R = {(x, y). x \<in> set U \<and> (x, y) \<in> ?E\<^sup>*}" by (rule closure_set[OF sf])
  have Rf: "\<forall>p \<in> set ?R. sep_free (fst p)" using R sf by auto
  have key: "pairKey a b \<in> relationSet ?R \<longleftrightarrow> (a, b) \<in> ?E\<^sup>*" if "a \<in> set U" for a b
    using key_mem_iff[OF Rf, of a b] sf that R by auto
  have inter: "hasIntermediate (relationSet ?R) a b U \<longleftrightarrow>
      (\<exists>c \<in> set U. c \<noteq> a \<and> c \<noteq> b \<and> (a, c) \<in> ?E\<^sup>* \<and> (c, b) \<in> ?E\<^sup>*)" if "a \<in> set U" for a b
    unfolding hasIntermediate_iff using key that by auto
  have noloop: "(x, x) \<notin> ?E\<^sup>+" for x using ac by (simp add: acyclic_def)
  show ?thesis
  proof (intro set_eqI iffI)
    fix p assume "p \<in> set (coversFromRelation U ?R (relationSet ?R))"
    then obtain a b where p: "p = (a, b)" and ab: "(a, b) \<in> set ?R" "a \<noteq> b" "a \<in> set U"
      "b \<in> set U" and ni: "\<not> hasIntermediate (relationSet ?R) a b U"
      by (auto simp: coversFromRelation_set)
    from ab(1,2) R have "(a, b) \<in> ?E\<^sup>+" by (auto simp: rtrancl_eq_or_trancl)
    then consider "(a, b) \<in> ?E" | c where "(a, c) \<in> ?E" "(c, b) \<in> ?E\<^sup>+"
      by (meson converse_tranclE)
    then have "(a, b) \<in> ?E"
    proof cases
      case 1
      then show ?thesis .
    next
      case 2
      from 2(1) dom have cU: "c \<in> set U" by auto
      from 2(1) noloop[of a] have ca: "c \<noteq> a" by auto
      from 2(2) noloop[of b] have cb: "c \<noteq> b" by auto
      from 2 have "(a, c) \<in> ?E\<^sup>*" "(c, b) \<in> ?E\<^sup>*" by auto
      with cU ca cb inter[OF ab(3), of b] ni show ?thesis by blast
    qed
    with p show "p \<in> ?E" by simp
  next
    fix p assume pE: "p \<in> ?E"
    obtain a b where p: "p = (a, b)" by (cases p) auto
    from pE p dom have aU: "a \<in> set U" and bU: "b \<in> set U" by auto
    from pE p noloop[of a] have ab: "a \<noteq> b" by auto
    from pE p aU R have inR: "(a, b) \<in> set ?R" by auto
    have "\<not> hasIntermediate (relationSet ?R) a b U"
    proof
      assume "hasIntermediate (relationSet ?R) a b U"
      with inter[OF aU, of b] obtain c where c: "c \<noteq> a" "c \<noteq> b" "(a, c) \<in> ?E\<^sup>*" "(c, b) \<in> ?E\<^sup>*"
        by blast
      then have ac': "(a, c) \<in> ?E\<^sup>+" and cb': "(c, b) \<in> ?E\<^sup>+"
        by (auto simp: rtrancl_eq_or_trancl)
      have 1: "(a, c) \<in> (?E - {(a, b)})\<^sup>+"
      proof -
        from trancl_avoid_edge[OF ac', of "(a, b)"] show ?thesis
        proof
          assume "(a, c) \<in> (?E - {(a, b)})\<^sup>+"
          then show ?thesis .
        next
          assume "(a, fst (a, b)) \<in> ?E\<^sup>* \<and> (snd (a, b), c) \<in> ?E\<^sup>*"
          then have "(b, c) \<in> ?E\<^sup>*" by simp
          with cb' have "(b, b) \<in> ?E\<^sup>+" by (meson rtrancl_trancl_trancl)
          with noloop show ?thesis by blast
        qed
      qed
      have 2: "(c, b) \<in> (?E - {(a, b)})\<^sup>+"
      proof -
        from trancl_avoid_edge[OF cb', of "(a, b)"] show ?thesis
        proof
          assume "(c, b) \<in> (?E - {(a, b)})\<^sup>+"
          then show ?thesis .
        next
          assume "(c, fst (a, b)) \<in> ?E\<^sup>* \<and> (snd (a, b), b) \<in> ?E\<^sup>*"
          then have "(c, a) \<in> ?E\<^sup>*" by simp
          with ac' have "(a, a) \<in> ?E\<^sup>+" by (meson trancl_rtrancl_trancl)
          with noloop show ?thesis by blast
        qed
      qed
      from 1 2 have "(a, b) \<in> (?E - {(a, b)})\<^sup>+" by (rule trancl_trans)
      with irr pE p show False by (auto simp: irredundant_def)
    qed
    with inR ab aU bU p show "p \<in> set (coversFromRelation U ?R (relationSet ?R))"
      by (simp add: coversFromRelation_set)
  qed
qed

text \<open>
  The cover list of the next theorem is acyclic and irredundant, and its pair lies inside
  the universe.
\<close>

lemma roundtrip_input_wellformed:
  "acyclic (set [(''a'', ''||a||'')]) \<and> irredundant [(''a'', ''||a||'')] \<and>
   set [(''a'', ''||a||'')] \<subseteq>
     set [''a'', ''|a|'', ''||a||'', ''a|'', ''|a||''] \<times> set [''a'', ''|a|'', ''||a||'', ''a|'', ''|a||'']"
proof -
  have "acyclic ({} :: Pair set)" by (simp add: acyclic_def)
  then show ?thesis by (simp add: acyclic_insert irredundant_def)
qed

text \<open>
  Claim C5 says that reducing the closure of an acyclic, irredundant cover list \<open>H\<close> over
  \<open>U\<close> gives \<open>H\<close> back. With \<open>U\<close> the elements \<open>a\<close>, \<open>|a|\<close>, \<open>||a||\<close>, \<open>a|\<close>, \<open>|a||\<close> and
  \<open>H\<close> the single pair \<open>(a, ||a||)\<close> the closure is the six pairs it should be, but the
  reduction looks pairs up by their keys: \<open>pairKey a |a|\<close> is the key of the diagonal
  pair of \<open>a|\<close> and \<open>pairKey |a| ||a||\<close> is the key of the diagonal pair of \<open>|a||\<close>, so
  \<open>|a|\<close> is taken for an element between \<open>a\<close> and \<open>||a||\<close> and no cover is returned. With
  elements that hold no \<open>|\<close> the claim holds (\<open>roundtrip_unambiguous\<close>).
\<close>

theorem roundtrip_loses_cover_on_key_clash:
  "transitiveClosureFromCovers [''a'', ''|a|'', ''||a||'', ''a|'', ''|a||''] [(''a'', ''||a||'')] =
     [(''a'', ''a''), (''a'', ''||a||''), (''|a|'', ''|a|''), (''||a||'', ''||a||''),
      (''a|'', ''a|''), (''|a||'', ''|a||'')] \<and>
   coversFromRelation [''a'', ''|a|'', ''||a||'', ''a|'', ''|a||'']
     (transitiveClosureFromCovers [''a'', ''|a|'', ''||a||'', ''a|'', ''|a||''] [(''a'', ''||a||'')])
     (relationSet
       (transitiveClosureFromCovers [''a'', ''|a|'', ''||a||'', ''a|'', ''|a||'']
          [(''a'', ''||a||'')])) = []"
  by (simp add: cl_ev coversFromRelation_def relationSet_def)

lemma coversLoop_subset:
  "set (coversLoop U relSet ps acc) \<subseteq>
     set acc \<union> {(a, b). (a, b) \<in> set ps \<and> a \<noteq> b \<and> a \<in> set U \<and> b \<in> set U}"
  by (induction U relSet ps acc rule: coversLoop.induct) auto

text \<open>
  Claim C10: whatever the universe, the pair list and the membership set are, every pair
  \<open>(a, b)\<close> returned by \<open>coversFromRelation\<close> is a pair of the input list, has
  \<open>a \<noteq> b\<close>, and has both components in \<open>U\<close>.
\<close>

theorem coversFromRelation_sound:
  "(a, b) \<in> set (coversFromRelation U relPairs relSet) \<Longrightarrow>
     (a, b) \<in> set relPairs \<and> a \<noteq> b \<and> a \<in> set U \<and> b \<in> set U"
  using coversLoop_subset[of U relSet relPairs "[]"] by (auto simp: coversFromRelation_def)

theorem coversFromRelation_sound_witness:
  "(''1'', ''2'') \<in> set (coversFromRelation [''1'', ''2'', ''3'']
       [(''1'', ''1''), (''1'', ''2''), (''2'', ''2''), (''1'', ''3''), (''2'', ''3''), (''3'', ''3'')]
       (relationSet [(''1'', ''1''), (''1'', ''2''), (''2'', ''2''), (''1'', ''3''), (''2'', ''3''),
          (''3'', ''3'')])) \<and>
   (''1'', ''2'') \<in> set [(''1'', ''1''), (''1'', ''2''), (''2'', ''2''), (''1'', ''3''),
       (''2'', ''3''), (''3'', ''3'')] \<and>
   ''1'' \<noteq> ''2'' \<and> ''1'' \<in> set [''1'', ''2'', ''3''] \<and> ''2'' \<in> set [''1'', ''2'', ''3'']"
proof -
  have h: "(''1'', ''2'') \<in> set (coversFromRelation [''1'', ''2'', ''3'']
       [(''1'', ''1''), (''1'', ''2''), (''2'', ''2''), (''1'', ''3''), (''2'', ''3''), (''3'', ''3'')]
       (relationSet [(''1'', ''1''), (''1'', ''2''), (''2'', ''2''), (''1'', ''3''), (''2'', ''3''),
          (''3'', ''3'')]))"
    by (simp add: coversFromRelation_def relationSet_def pairKey_def)
  from coversFromRelation_sound[OF h] h show ?thesis by simp
qed

subsection \<open>The reflexivity check\<close>

text \<open>
  With elements and first components that hold no \<open>|\<close> the check is the property, and
  taking a diagonal pair out makes it fail at the element of that pair.
\<close>

lemma reflexive_iff_unambiguous:
  assumes "\<forall>x \<in> set U. sep_free x" and "\<forall>p \<in> set R. sep_free (fst p)"
  shows "reflexive (relationProps U R (relationSet R)) \<longleftrightarrow> (\<forall>x \<in> set U. (x, x) \<in> set R)"
proof -
  have "reflexive (relationProps U R (relationSet R)) \<longleftrightarrow>
      (\<forall>x \<in> set U. pairKey x x \<in> relationSet R)"
    by (auto simp: relationProps_def Let_def find_None_iff)
  also have "\<dots> \<longleftrightarrow> (\<forall>x \<in> set U. (x, x) \<in> set R)"
    using assms by (auto simp: key_mem_iff)
  finally show ?thesis .
qed

lemma reflexive_removed_diagonal_unambiguous:
  assumes U: "\<forall>x \<in> set U. sep_free x" and R: "\<forall>p \<in> set R. sep_free (fst p)"
    and rf: "\<forall>x \<in> set U. (x, x) \<in> set R" and x: "x \<in> set U"
  shows "\<not> reflexive (relationProps U (removeAll (x, x) R) (relationSet (removeAll (x, x) R))) \<and>
         reflexiveMissing (relationProps U (removeAll (x, x) R) (relationSet (removeAll (x, x) R)))
           = Some x"
proof -
  let ?R = "removeAll (x, x) R"
  have R': "\<forall>p \<in> set ?R. sep_free (fst p)" using R by simp
  have k: "pairKey u u \<notin> relationSet ?R \<longleftrightarrow> u = x" if "u \<in> set U" for u
    using key_mem_iff[OF R', of u u] U rf that by auto
  have "List.find (\<lambda>u. pairKey u u \<notin> relationSet ?R) U = Some x"
    using x k
  proof (induction U)
    case Nil
    then show ?case by simp
  next
    case (Cons u U)
    show ?case
    proof (cases "u = x")
      case True
      with Cons.prems(2)[of u] show ?thesis by simp
    next
      case False
      with Cons.prems(1) have "x \<in> set U" by simp
      from Cons.IH[OF this] Cons.prems(2) False show ?thesis by simp
    qed
  qed
  then show ?thesis by (simp add: relationProps_def Let_def)
qed

text \<open>
  Claim C9 says that the reflexivity check holds if and only if every \<open>x\<close> of \<open>U\<close> has
  \<open>(x, x)\<close> in \<open>R\<close>. The check looks the key of \<open>(x, x)\<close> up in the set of the keys of
  \<open>R\<close>, and the key of \<open>(a|, a|)\<close> is the key of the pair \<open>(a, |a|)\<close> of \<open>R\<close>: the check
  holds although \<open>(a|, a|)\<close> is not in \<open>R\<close>.
\<close>

theorem reflexive_check_fooled_by_key_clash:
  "reflexive (relationProps [''a'', ''|a|'', ''a|'']
      [(''a'', ''a''), (''|a|'', ''|a|''), (''a'', ''|a|'')]
      (relationSet [(''a'', ''a''), (''|a|'', ''|a|''), (''a'', ''|a|'')])) \<and>
   ''a|'' \<in> set [''a'', ''|a|'', ''a|''] \<and>
   (''a|'', ''a|'') \<notin> set [(''a'', ''a''), (''|a|'', ''|a|''), (''a'', ''|a|'')]"
  by (simp add: relationProps_def relationSet_def pairKey_def Let_def)

section \<open>Properties of the layout\<close>


subsection \<open>The invariant of the worklist loop\<close>

lemma relaxEdge_props:
  assumes "relaxEdge lv w (L, q) = (L', q')"
  shows "\<exists>l'. L' w = Some l' \<and> lv < l'"
    and "\<And>x l. L x = Some l \<Longrightarrow> \<exists>l'. L' x = Some l' \<and> l \<le> l'"
    and "\<And>x. L' x \<noteq> L x \<Longrightarrow> x \<in> set q'"
    and "set q \<subseteq> set q'"
    and "set q' \<subseteq> insert w (set q)"
    and "dom L' = insert w (dom L)"
  using assms
  by (auto simp: relaxEdge_def Let_def split: option.splits if_splits)

lemma fold_relaxEdge:
  "fold (relaxEdge lv) ws (L, q) = (L', q') \<Longrightarrow>
     (\<forall>w \<in> set ws. \<exists>l'. L' w = Some l' \<and> lv < l') \<and>
     (\<forall>x l. L x = Some l \<longrightarrow> (\<exists>l'. L' x = Some l' \<and> l \<le> l')) \<and>
     (\<forall>x. L' x \<noteq> L x \<longrightarrow> x \<in> set q') \<and>
     set q \<subseteq> set q' \<and> set q' \<subseteq> set q \<union> set ws \<and> dom L' = dom L \<union> set ws"
proof (induction ws arbitrary: L q)
  case Nil
  then show ?case by simp
next
  case (Cons w ws)
  obtain L1 q1 where e: "relaxEdge lv w (L, q) = (L1, q1)" by (cases "relaxEdge lv w (L, q)") auto
  with Cons.prems have f: "fold (relaxEdge lv) ws (L1, q1) = (L', q')" by simp
  note IH = Cons.IH[OF f]
  note P = relaxEdge_props[OF e]
  have a: "\<forall>x l. L x = Some l \<longrightarrow> (\<exists>l'. L' x = Some l' \<and> l \<le> l')"
  proof (intro allI impI)
    fix x l assume "L x = Some l"
    from P(2)[OF this] obtain l1 where "L1 x = Some l1" "l \<le> l1" by blast
    with IH show "\<exists>l'. L' x = Some l' \<and> l \<le> l'" by (meson le_trans)
  qed
  have b: "\<forall>w' \<in> set (w # ws). \<exists>l'. L' w' = Some l' \<and> lv < l'"
  proof
    fix w' assume "w' \<in> set (w # ws)"
    then consider "w' = w" | "w' \<in> set ws" by auto
    then show "\<exists>l'. L' w' = Some l' \<and> lv < l'"
    proof cases
      case 1
      from P(1) obtain l1 where "L1 w = Some l1" "lv < l1" by blast
      with IH 1 show ?thesis by (meson less_le_trans)
    next
      case 2
      with IH show ?thesis by blast
    qed
  qed
  have c: "\<forall>x. L' x \<noteq> L x \<longrightarrow> x \<in> set q'"
  proof (intro allI impI)
    fix x assume d: "L' x \<noteq> L x"
    show "x \<in> set q'"
    proof (cases "L1 x = L x")
      case True
      with d IH show ?thesis by auto
    next
      case False
      from P(3)[OF False] IH show ?thesis by blast
    qed
  qed
  have d: "set q \<subseteq> set q'" using P(4) IH by blast
  have e': "set q' \<subseteq> set q \<union> set (w # ws)" using P(5) IH by auto
  have g: "dom L' = dom L \<union> set (w # ws)" using P(6) IH by auto
  from a b c d e' g show ?case by blast
qed

lemma relaxNode_inv:
  assumes inv: "relax_inv succs (L, v # rest)"
    and nx: "relaxNode succs v (L, rest) = (L', q')"
  shows "relax_inv succs (L', q')" and "dom L \<subseteq> dom L'"
proof -
  from inv obtain lv where lv: "L v = Some lv" by (auto simp: relax_inv_def)
  from nx lv have f: "fold (relaxEdge lv) (adj_get succs v) (L, rest) = (L', q')"
    by (simp add: relaxNode_def)
  note F = fold_relaxEdge[OF f]
  from F show "dom L \<subseteq> dom L'" by blast
  have q: "set q' \<subseteq> dom L'"
  proof
    fix x assume "x \<in> set q'"
    with F have "x \<in> set rest \<or> x \<in> set (adj_get succs v)" by blast
    with inv F show "x \<in> dom L'" by (auto simp: relax_inv_def)
  qed
  have main: "\<forall>u lu. L' u = Some lu \<longrightarrow> u \<notin> set q' \<longrightarrow>
           (\<forall>w \<in> set (adj_get succs u). \<exists>lw. L' w = Some lw \<and> lu < lw)"
  proof (intro allI impI ballI)
    fix u lu w
    assume u: "L' u = Some lu" and nq: "u \<notin> set q'" and w: "w \<in> set (adj_get succs u)"
    from nq F have same: "L' u = L u" by blast
    from nq F have nr: "u \<notin> set rest" by blast
    show "\<exists>lw. L' w = Some lw \<and> lu < lw"
    proof (cases "u = v")
      case True
      with same u lv have "lu = lv" by simp
      with F w True show ?thesis by blast
    next
      case False
      with nr have nq': "u \<notin> set (v # rest)" by simp
      from same u have Lu: "L u = Some lu" by simp
      from inv have "\<forall>v' lv'. L v' = Some lv' \<longrightarrow> v' \<notin> set (v # rest) \<longrightarrow>
           (\<forall>w \<in> set (adj_get succs v'). \<exists>lw. L w = Some lw \<and> lv' < lw)"
        unfolding relax_inv_def by simp
      with Lu nq' w obtain lw where "L w = Some lw" "lu < lw" by blast
      with F show ?thesis by (meson less_le_trans)
    qed
  qed
  from q main show "relax_inv succs (L', q')" by (simp add: relax_inv_def)
qed

lemma relaxLoop_correct:
  assumes "relaxLoop succs s = Some Lf"
  shows "relax_inv succs s \<longrightarrow>
     dom (fst s) \<subseteq> dom Lf \<and>
     (\<forall>v lv. Lf v = Some lv \<longrightarrow>
        (\<forall>w \<in> set (adj_get succs v). \<exists>lw. Lf w = Some lw \<and> lv < lw))"
proof (rule relaxLoop.raw_induct[where P = "\<lambda>succs s Lf. relax_inv succs s \<longrightarrow>
     dom (fst s) \<subseteq> dom Lf \<and>
     (\<forall>v lv. Lf v = Some lv \<longrightarrow>
        (\<forall>w \<in> set (adj_get succs v). \<exists>lw. Lf w = Some lw \<and> lv < lw))", OF _ assms])
  fix loop :: "adjacency \<Rightarrow> levels \<times> Elem list \<Rightarrow> levels option"
    and succs :: adjacency and s :: "levels \<times> Elem list" and Lf :: levels
  assume IH: "\<And>succs s Lf. loop succs s = Some Lf \<Longrightarrow> relax_inv succs s \<longrightarrow>
     dom (fst s) \<subseteq> dom Lf \<and>
     (\<forall>v lv. Lf v = Some lv \<longrightarrow>
        (\<forall>w \<in> set (adj_get succs v). \<exists>lw. Lf w = Some lw \<and> lv < lw))"
  assume step: "(case s of
        (levelMap, []) \<Rightarrow> Some levelMap
      | (levelMap, v # rest) \<Rightarrow> loop succs (relaxNode succs v (levelMap, rest))) = Some Lf"
  show "relax_inv succs s \<longrightarrow>
     dom (fst s) \<subseteq> dom Lf \<and>
     (\<forall>v lv. Lf v = Some lv \<longrightarrow>
        (\<forall>w \<in> set (adj_get succs v). \<exists>lw. Lf w = Some lw \<and> lv < lw))"
  proof
    assume inv: "relax_inv succs s"
    obtain L q where s: "s = (L, q)" by (cases s) auto
    show "dom (fst s) \<subseteq> dom Lf \<and>
     (\<forall>v lv. Lf v = Some lv \<longrightarrow>
        (\<forall>w \<in> set (adj_get succs v). \<exists>lw. Lf w = Some lw \<and> lv < lw))"
    proof (cases q)
      case Nil
      with step s have "Lf = L" by simp
      with inv s Nil show ?thesis by (simp add: relax_inv_def)
    next
      case (Cons v rest)
      obtain L' q' where nx: "relaxNode succs v (L, rest) = (L', q')"
        by (cases "relaxNode succs v (L, rest)") auto
      from step s Cons nx have "loop succs (L', q') = Some Lf" by simp
      from IH[OF this] relaxNode_inv[OF inv[unfolded s Cons] nx] s
      show ?thesis by auto
    qed
  qed
qed

lemma adj_get_initSets_aux:
  "(\<And>x. adj_get m x = []) \<Longrightarrow> adj_get (fold (\<lambda>u m. AList.update u [] m) us m) x = []"
  by (induction us arbitrary: m) (simp_all add: adj_get_update)

lemma adj_get_initSets: "adj_get (initSets universe) x = []"
  unfolding initSets_def by (rule adj_get_initSets_aux) (simp add: adj_get_def)

lemma set_set_add: "set (set_add x xs) = insert x (set xs)"
  by (auto simp: set_add_def)

lemma fold_addEdge:
  "fold (addEdge universe) covers (p0, s0) = (preds, succs) \<Longrightarrow>
     (\<forall>a. set (adj_get succs a) = set (adj_get s0 a) \<union> {b. (a, b) \<in> in_edges universe covers}) \<and>
     (\<forall>b. set (adj_get preds b) = set (adj_get p0 b) \<union> {a. (a, b) \<in> in_edges universe covers})"
proof (induction covers arbitrary: p0 s0)
  case Nil
  then show ?case by (simp add: in_edges_def)
next
  case (Cons c covers)
  obtain a b where c: "c = (a, b)" by (cases c) auto
  obtain p1 s1 where e: "addEdge universe c (p0, s0) = (p1, s1)"
    by (cases "addEdge universe c (p0, s0)") auto
  with Cons.prems have f: "fold (addEdge universe) covers (p1, s1) = (preds, succs)" by simp
  note IH = Cons.IH[OF f]
  have s1: "\<And>x. set (adj_get s1 x) =
      set (adj_get s0 x) \<union> {y. (x, y) = (a, b) \<and> a \<in> set universe \<and> b \<in> set universe}"
    using e c by (auto simp: addEdge_def adj_get_update set_set_add split: if_splits)
  have p1: "\<And>y. set (adj_get p1 y) =
      set (adj_get p0 y) \<union> {x. (x, y) = (a, b) \<and> a \<in> set universe \<and> b \<in> set universe}"
    using e c by (auto simp: addEdge_def adj_get_update set_set_add split: if_splits)
  show ?case
  proof (intro conjI allI)
    fix x
    show "set (adj_get succs x) =
        set (adj_get s0 x) \<union> {y. (x, y) \<in> in_edges universe (c # covers)}"
      using IH s1[of x] c by (auto simp: in_edges_def)
  next
    fix y
    show "set (adj_get preds y) =
        set (adj_get p0 y) \<union> {x. (x, y) \<in> in_edges universe (c # covers)}"
      using IH p1[of y] c by (auto simp: in_edges_def)
  qed
qed

lemma buildPredsSuccs_sets:
  assumes "buildPredsSuccs universe covers = (preds, succs)"
  shows "set (adj_get succs a) = {b. (a, b) \<in> in_edges universe covers}"
    and "set (adj_get preds b) = {a. (a, b) \<in> in_edges universe covers}"
  using fold_addEdge[OF assms[unfolded buildPredsSuccs_def]]
  by (simp_all add: adj_get_initSets)

lemma fold_seedStep:
  "fold (seedStep preds) us (L, q) = (L', q') \<Longrightarrow> dom L = set q \<Longrightarrow>
     dom L' = set q' \<and> set q \<subseteq> set q' \<and>
     (\<forall>u \<in> set us. adj_get preds u = [] \<longrightarrow> u \<in> set q')"
proof (induction us arbitrary: L q)
  case Nil
  then show ?case by simp
next
  case (Cons u us)
  obtain L1 q1 where e: "seedStep preds u (L, q) = (L1, q1)"
    by (cases "seedStep preds u (L, q)") auto
  with Cons.prems have f: "fold (seedStep preds) us (L1, q1) = (L', q')" by simp
  have d: "dom L1 = set q1"
  proof (cases "adj_get preds u = []")
    case True
    with e have "L1 = L(u \<mapsto> 0)" "q1 = q @ [u]" by (simp_all add: seedStep_def)
    with Cons.prems(2) show ?thesis by simp
  next
    case False
    with e have "L1 = L" "q1 = q" by (simp_all add: seedStep_def)
    with Cons.prems(2) show ?thesis by simp
  qed
  have sub: "set q \<subseteq> set q1" and hit: "adj_get preds u = [] \<longrightarrow> u \<in> set q1"
    using e by (auto simp: seedStep_def split: if_splits)
  from Cons.IH[OF f d] sub hit show ?case by auto
qed

lemma seedQueue_props:
  assumes "seedQueue universe preds = (L, q)"
  shows "dom L = set q"
    and "\<And>u. u \<in> set universe \<Longrightarrow> adj_get preds u = [] \<Longrightarrow> u \<in> dom L"
proof -
  obtain L1 q1 where f: "fold (seedStep preds) universe (Map.empty, []) = (L1, q1)"
    by (cases "fold (seedStep preds) universe (Map.empty, [])") auto
  from fold_seedStep[OF f] have P: "dom L1 = set q1"
    "\<forall>u \<in> set universe. adj_get preds u = [] \<longrightarrow> u \<in> set q1" by simp_all
  from assms f have LQ: "(L, q) = (case universe of
           u0 # _ \<Rightarrow> if q1 = [] then (L1(u0 \<mapsto> 0), [u0]) else (L1, q1)
         | [] \<Rightarrow> (L1, q1))"
    by (simp add: seedQueue_def)
  from LQ P show "dom L = set q"
    by (auto split: list.splits if_splits)
  fix u assume "u \<in> set universe" "adj_get preds u = []"
  with P have "u \<in> set q1" by blast
  with LQ P show "u \<in> dom L" by (auto split: list.splits if_splits)
qed

lemma seedQueue_inv:
  "seedQueue universe preds = (L, q) \<Longrightarrow> relax_inv succs (L, q)"
  using seedQueue_props(1)[of universe preds L q] by (auto simp: relax_inv_def)

lemma relaxedLevels_edge:
  assumes r: "relaxedLevels universe covers = Some L0"
    and e: "(a, b) \<in> in_edges universe covers"
    and a: "L0 a = Some la"
  shows "\<exists>lb. L0 b = Some lb \<and> la < lb"
proof -
  obtain preds succs where ps: "buildPredsSuccs universe covers = (preds, succs)"
    by (cases "buildPredsSuccs universe covers") auto
  obtain L q where sq: "seedQueue universe preds = (L, q)"
    by (cases "seedQueue universe preds") auto
  from r ps sq have lp: "relaxLoop succs (L, q) = Some L0" by (simp add: relaxedLevels_def)
  from relaxLoop_correct[OF lp] seedQueue_inv[OF sq]
  have "\<forall>v lv. L0 v = Some lv \<longrightarrow>
        (\<forall>w \<in> set (adj_get succs v). \<exists>lw. L0 w = Some lw \<and> lv < lw)" by blast
  moreover have "b \<in> set (adj_get succs a)" using buildPredsSuccs_sets(1)[OF ps] e by simp
  ultimately show ?thesis using a by blast
qed




lemma relaxedLevels_reach:
  assumes r: "relaxedLevels universe covers = Some L0"
    and p: "(a, b) \<in> (in_edges universe covers)\<^sup>+"
  shows "L0 a = Some la \<Longrightarrow> \<exists>lb. L0 b = Some lb \<and> la < lb"
  using p
proof (induction rule: trancl_induct)
  case (base y)
  from relaxedLevels_edge[OF r base(1) base(2)] show ?case .
next
  case (step y z)
  from step(3)[OF step(4)] obtain ly where ly: "L0 y = Some ly" "la < ly" by blast
  from relaxedLevels_edge[OF r step(2) ly(1)] ly(2) show ?case by (meson less_trans)
qed

text \<open>
  With exact levels, a loop that has ended has reached no element of a cycle: the levels
  along the cycle would have to increase strictly.
\<close>

lemma relaxedLevels_no_reached_cycle:
  assumes "relaxedLevels universe covers = Some L0" and "a \<in> dom L0"
  shows "(a, a) \<notin> (in_edges universe covers)\<^sup>+"
proof
  assume c: "(a, a) \<in> (in_edges universe covers)\<^sup>+"
  from assms(2) obtain la where la: "L0 a = Some la" by blast
  from relaxedLevels_reach[OF assms(1) c la] la show False by simp
qed

subsection \<open>The loop ends on acyclic input\<close>

lemma potential_update:
  assumes fin: "finite S" and w: "w \<in> S" and lt: "lev L w < c" and le: "c \<le> h w"
  shows "potential h S (L(w \<mapsto> c)) + 1 \<le> potential h S L"
proof -
  have rest: "(\<Sum>v \<in> S - {w}. h v + 1 - lev (L(w \<mapsto> c)) v) = (\<Sum>v \<in> S - {w}. h v + 1 - lev L v)"
    by (rule sum.cong) (auto simp: lev_def)
  have "potential h S (L(w \<mapsto> c)) = (h w + 1 - c) + (\<Sum>v \<in> S - {w}. h v + 1 - lev L v)"
    unfolding potential_def using sum.remove[OF fin w, of "\<lambda>v. h v + 1 - lev (L(w \<mapsto> c)) v"] rest
    by (simp add: lev_def)
  moreover have "potential h S L = (h w + 1 - lev L w) + (\<Sum>v \<in> S - {w}. h v + 1 - lev L v)"
    unfolding potential_def using sum.remove[OF fin w, of "\<lambda>v. h v + 1 - lev L v"] by simp
  ultimately show ?thesis using lt le by simp
qed

lemma relaxEdge_measure:
  assumes fin: "finite S" and w: "w \<in> S" and lv: "lv < h w" and b: "bounded_by h L"
    and e: "relaxEdge lv w (L, q) = (L', q')"
  shows "bounded_by h L' \<and> potential h S L' + length q' \<le> potential h S L + length q"
proof (cases "L' = L \<and> q' = q")
  case True
  with b show ?thesis by simp
next
  case False
  with e have upd: "L' = L(w \<mapsto> lv + 1)" "q' = q @ [w]" and lt: "lev L w < lv + 1"
    by (auto simp: relaxEdge_def Let_def lev_def split: option.splits if_splits)
  from lv have le: "lv + 1 \<le> h w" by simp
  from potential_update[where h = h and c = "lv + 1", OF fin w lt le] upd
  have "potential h S L' + length q' \<le> potential h S L + length q" by simp
  moreover have "bounded_by h L'" using b le upd by (auto simp: bounded_by_def)
  ultimately show ?thesis by simp
qed

lemma fold_relaxEdge_measure:
  "finite S \<Longrightarrow> \<forall>w \<in> set ws. w \<in> S \<and> lv < h w \<Longrightarrow> bounded_by h L \<Longrightarrow>
   fold (relaxEdge lv) ws (L, q) = (L', q') \<Longrightarrow>
   bounded_by h L' \<and> potential h S L' + length q' \<le> potential h S L + length q"
proof (induction ws arbitrary: L q)
  case Nil
  then show ?case by simp
next
  case (Cons w ws)
  obtain L1 q1 where e: "relaxEdge lv w (L, q) = (L1, q1)" by (cases "relaxEdge lv w (L, q)") auto
  with Cons.prems(4) have f: "fold (relaxEdge lv) ws (L1, q1) = (L', q')" by simp
  from Cons.prems(2) have w: "w \<in> S" "lv < h w" and ws: "\<forall>w \<in> set ws. w \<in> S \<and> lv < h w"
    by simp_all
  from relaxEdge_measure[OF Cons.prems(1) w Cons.prems(3) e]
  have 1: "bounded_by h L1" "potential h S L1 + length q1 \<le> potential h S L + length q"
    by simp_all
  from Cons.IH[OF Cons.prems(1) ws 1(1) f] 1(2) show ?case by simp
qed

lemma relaxLoop_terminates:
  assumes fin: "finite S"
    and mono: "\<forall>v. \<forall>w \<in> set (adj_get succs v). w \<in> S \<and> h v < h w"
  shows "bounded_by h L \<Longrightarrow> potential h S L + length q = n \<Longrightarrow>
         \<exists>Lf. relaxLoop succs (L, q) = Some Lf"
proof (induction n arbitrary: L q rule: less_induct)
  case (less n)
  show ?case
  proof (cases q)
    case Nil
    then show ?thesis by (subst relaxLoop.simps) simp
  next
    case (Cons v rest)
    obtain L' q' where nx: "relaxNode succs v (L, rest) = (L', q')"
      by (cases "relaxNode succs v (L, rest)") auto
    then have f: "fold (relaxEdge (lev L v)) (adj_get succs v) (L, rest) = (L', q')"
      by (simp add: relaxNode_def lev_def)
    have "lev L v \<le> h v" using less.prems(1) by (auto simp: lev_def bounded_by_def split: option.splits)
    with mono have ws: "\<forall>w \<in> set (adj_get succs v). w \<in> S \<and> lev L v < h w"
      by (meson le_less_trans)
    from fold_relaxEdge_measure[OF fin ws less.prems(1) f]
    have b': "bounded_by h L'" and m: "potential h S L' + length q' \<le> potential h S L + length rest"
      by simp_all
    from m less.prems(2) Cons have "potential h S L' + length q' < n" by simp
    from less.IH[OF this b' refl] obtain Lf where "relaxLoop succs (L', q') = Some Lf" by blast
    with nx Cons show ?thesis by (subst relaxLoop.simps) simp
  qed
qed

lemma acyclic_rank:
  assumes fin: "finite E" and ac: "acyclic E"
  shows "\<exists>h :: 'a \<Rightarrow> nat. \<forall>v w. (v, w) \<in> E \<longrightarrow> h v < h w"
proof -
  define h where "h v = card {u. (u, v) \<in> E\<^sup>+}" for v
  have finA: "finite {u. (u, v) \<in> E\<^sup>+}" for v
  proof -
    have "finite (E\<^sup>+)" using fin by simp
    then have "finite (fst ` (E\<^sup>+))" by simp
    moreover have "{u. (u, v) \<in> E\<^sup>+} \<subseteq> fst ` (E\<^sup>+)" by force
    ultimately show ?thesis by (rule rev_finite_subset)
  qed
  have "h v < h w" if "(v, w) \<in> E" for v w
  proof -
    have "{u. (u, v) \<in> E\<^sup>+} \<subseteq> {u. (u, w) \<in> E\<^sup>+}" using that by auto
    moreover have "v \<in> {u. (u, w) \<in> E\<^sup>+}" using that by auto
    moreover have "v \<notin> {u. (u, v) \<in> E\<^sup>+}" using ac by (simp add: acyclic_def)
    ultimately have "{u. (u, v) \<in> E\<^sup>+} \<subset> {u. (u, w) \<in> E\<^sup>+}" by blast
    from psubset_card_mono[OF finA this] show ?thesis by (simp add: h_def)
  qed
  then show ?thesis by blast
qed

lemma fold_seedStep_zero:
  "fold (seedStep preds) us (L, q) = (L', q') \<Longrightarrow> \<forall>v l. L v = Some l \<longrightarrow> l = 0 \<Longrightarrow>
     \<forall>v l. L' v = Some l \<longrightarrow> l = 0"
proof (induction us arbitrary: L q)
  case Nil
  then show ?case by simp
next
  case (Cons u us)
  obtain L1 q1 where e: "seedStep preds u (L, q) = (L1, q1)"
    by (cases "seedStep preds u (L, q)") auto
  with Cons.prems have f: "fold (seedStep preds) us (L1, q1) = (L', q')" by simp
  have "\<forall>v l. L1 v = Some l \<longrightarrow> l = 0"
    using e Cons.prems(2) by (auto simp: seedStep_def split: if_splits)
  from Cons.IH[OF f this] show ?case .
qed

lemma seedQueue_zero:
  assumes "seedQueue universe preds = (L, q)"
  shows "\<forall>v l. L v = Some l \<longrightarrow> l = 0"
proof -
  obtain L1 q1 where f: "fold (seedStep preds) universe (Map.empty, []) = (L1, q1)"
    by (cases "fold (seedStep preds) universe (Map.empty, [])") auto
  from fold_seedStep_zero[OF f] have z: "\<forall>v l. L1 v = Some l \<longrightarrow> l = 0" by simp
  from assms f have "L = L1 \<or> (\<exists>u0. L = L1(u0 \<mapsto> 0))"
    by (auto simp: seedQueue_def split: list.splits if_splits)
  with z show ?thesis by (auto split: if_splits)
qed

lemma relaxedLevels_acyclic_terminates:
  assumes ac: "acyclic (in_edges universe covers)"
  shows "\<exists>L. relaxedLevels universe covers = Some L"
proof -
  have fin: "finite (in_edges universe covers)"
    by (rule finite_subset[of _ "set covers"]) (auto simp: in_edges_def)
  from acyclic_rank[OF fin ac] obtain h :: "Elem \<Rightarrow> nat" where
    h: "\<forall>v w. (v, w) \<in> in_edges universe covers \<longrightarrow> h v < h w" by blast
  obtain preds succs where ps: "buildPredsSuccs universe covers = (preds, succs)"
    by (cases "buildPredsSuccs universe covers") auto
  obtain L q where sq: "seedQueue universe preds = (L, q)"
    by (cases "seedQueue universe preds") auto
  have mono: "\<forall>v. \<forall>w \<in> set (adj_get succs v). w \<in> set universe \<and> h v < h w"
    using buildPredsSuccs_sets(1)[OF ps] h by (auto simp: in_edges_def)
  have b: "bounded_by h L" using seedQueue_zero[OF sq] by (auto simp: bounded_by_def)
  from relaxLoop_terminates[OF _ mono b refl, of q] obtain Lf where
    "relaxLoop succs (L, q) = Some Lf" by auto
  with ps sq show ?thesis by (simp add: relaxedLevels_def)
qed

lemma layoutHasse_acyclic_terminates:
  "acyclic (in_edges universe covers) \<Longrightarrow> \<exists>ps. layoutHasse universe covers = Some ps"
  using relaxedLevels_acyclic_terminates[of universe covers]
  by (auto simp: layoutHasse_def hasseLevels_def)

subsection \<open>The turns of the worklist loop\<close>

text \<open>
  The loop returns a level map exactly when some number of turns empties the queue.
\<close>

lemma relaxLoop_relaxTurn: "relaxLoop succs (relaxTurn succs s) = relaxLoop succs s"
proof (cases s)
  case (Pair L q)
  show ?thesis
  proof (cases q)
    case Nil
    with Pair show ?thesis by (simp add: relaxTurn_def)
  next
    case (Cons v rest)
    have "relaxLoop succs (L, v # rest) = relaxLoop succs (relaxNode succs v (L, rest))"
      by (subst relaxLoop.simps) simp
    with Pair Cons show ?thesis by (simp add: relaxTurn_def)
  qed
qed

lemma relaxLoop_turns: "relaxLoop succs ((relaxTurn succs ^^ n) s) = relaxLoop succs s"
  by (induction n) (simp_all add: relaxLoop_relaxTurn)

lemma relaxLoop_Some_turns:
  assumes "relaxLoop succs s = Some Lf"
  shows "\<exists>n. (relaxTurn succs ^^ n) s = (Lf, [])"
proof (rule relaxLoop.raw_induct[where P = "\<lambda>succs s Lf. \<exists>n. (relaxTurn succs ^^ n) s = (Lf, [])",
      OF _ assms])
  fix loop :: "adjacency \<Rightarrow> levels \<times> Elem list \<Rightarrow> levels option"
    and succs :: adjacency and s :: "levels \<times> Elem list" and y :: levels
  assume IH: "\<And>succs s y. loop succs s = Some y \<Longrightarrow> \<exists>n. (relaxTurn succs ^^ n) s = (y, [])"
  assume step: "(case s of
        (levelMap, []) \<Rightarrow> Some levelMap
      | (levelMap, v # rest) \<Rightarrow> loop succs (relaxNode succs v (levelMap, rest))) = Some y"
  obtain L q where s: "s = (L, q)" by (cases s) auto
  show "\<exists>n. (relaxTurn succs ^^ n) s = (y, [])"
  proof (cases q)
    case Nil
    with step s have "(relaxTurn succs ^^ 0) s = (y, [])" by simp
    then show ?thesis by blast
  next
    case (Cons v rest)
    with step s have "loop succs (relaxNode succs v (L, rest)) = Some y" by simp
    from IH[OF this] obtain n where "(relaxTurn succs ^^ n) (relaxNode succs v (L, rest)) = (y, [])"
      by blast
    with s Cons have "(relaxTurn succs ^^ Suc n) s = (y, [])"
      by (simp add: funpow_swap1 relaxTurn_def)
    then show ?thesis by blast
  qed
qed

lemma relaxLoop_Some_iff:
  "relaxLoop succs s = Some Lf \<longleftrightarrow> (\<exists>n. (relaxTurn succs ^^ n) s = (Lf, []))"
proof
  assume "relaxLoop succs s = Some Lf"
  then show "\<exists>n. (relaxTurn succs ^^ n) s = (Lf, [])" by (rule relaxLoop_Some_turns)
next
  assume "\<exists>n. (relaxTurn succs ^^ n) s = (Lf, [])"
  then obtain n where n: "(relaxTurn succs ^^ n) s = (Lf, [])" by blast
  have "relaxLoop succs s = relaxLoop succs ((relaxTurn succs ^^ n) s)"
    by (simp add: relaxLoop_turns)
  also have "\<dots> = Some Lf" unfolding n by (simp add: relaxLoop.simps)
  finally show "relaxLoop succs s = Some Lf" .
qed

lemma relaxedLevels_Some_iff:
  "relaxedLevels universe covers = Some Lf \<longleftrightarrow> (\<exists>n. stateAfter n universe covers = (Lf, []))"
  by (simp add: relaxedLevels_def stateAfter_def relaxLoop_Some_iff split: prod.splits)

text \<open>
  A turn raises a level to at most one more than the level of the element it took from
  the queue, so after \<open>n\<close> turns no level exceeds \<open>n\<close>.
\<close>

lemma relaxEdge_level:
  "relaxEdge lv w (L, q) = (L', q') \<Longrightarrow> L' x = Some l \<Longrightarrow> L x = Some l \<or> l = lv + 1"
  by (auto simp: relaxEdge_def Let_def split: option.splits if_splits)

lemma fold_relaxEdge_level:
  "fold (relaxEdge lv) ws (L, q) = (L', q') \<Longrightarrow> L' x = Some l \<Longrightarrow> L x = Some l \<or> l = lv + 1"
proof (induction ws arbitrary: L q)
  case Nil
  then show ?case by simp
next
  case (Cons w ws)
  obtain L1 q1 where e: "relaxEdge lv w (L, q) = (L1, q1)" by (cases "relaxEdge lv w (L, q)") auto
  with Cons.prems have "fold (relaxEdge lv) ws (L1, q1) = (L', q')" by simp
  from Cons.IH[OF this Cons.prems(2)] relaxEdge_level[OF e, of x l] show ?case by blast
qed

lemma relaxTurn_level:
  assumes b: "\<forall>x l. L x = Some l \<longrightarrow> l \<le> n"
    and t: "relaxTurn succs (L, q) = (L', q')" and l: "L' x = Some l"
  shows "l \<le> n + 1"
proof (cases q)
  case Nil
  with t have "L' = L" by (simp add: relaxTurn_def)
  with l b have "l \<le> n" by blast
  then show ?thesis by simp
next
  case (Cons v rest)
  define lv where "lv = (case L v of None \<Rightarrow> 0 | Some l \<Rightarrow> l)"
  have lvn: "lv \<le> n" using b by (auto simp: lv_def split: option.splits)
  from t Cons have "fold (relaxEdge lv) (adj_get succs v) (L, rest) = (L', q')"
    by (simp add: relaxTurn_def relaxNode_def lv_def)
  from fold_relaxEdge_level[OF this l] show ?thesis
  proof
    assume "L x = Some l"
    with b have "l \<le> n" by blast
    then show ?thesis by simp
  next
    assume "l = lv + 1"
    with lvn show ?thesis by simp
  qed
qed

lemma turns_level:
  assumes z: "\<forall>x l. L x = Some l \<longrightarrow> l = 0"
  shows "(relaxTurn succs ^^ n) (L, q) = (L', q') \<Longrightarrow> L' x = Some l \<Longrightarrow> l \<le> n"
proof (induction n arbitrary: L' q' x l)
  case 0
  with z show ?case by auto
next
  case (Suc n)
  obtain L1 q1 where m: "(relaxTurn succs ^^ n) (L, q) = (L1, q1)"
    by (cases "(relaxTurn succs ^^ n) (L, q)") auto
  from Suc.IH[OF m] have b: "\<forall>x l. L1 x = Some l \<longrightarrow> l \<le> n" by blast
  from Suc.prems(1) m have "relaxTurn succs (L1, q1) = (L', q')" by simp
  from relaxTurn_level[OF b this Suc.prems(2)] show ?case by simp
qed

lemma stateAfter_level:
  assumes "stateAfter n universe covers = (L, q)" and "L x = Some l"
  shows "l \<le> n"
proof -
  obtain preds succs where ps: "buildPredsSuccs universe covers = (preds, succs)"
    by (cases "buildPredsSuccs universe covers") auto
  obtain L0 q0 where sq: "seedQueue universe preds = (L0, q0)"
    by (cases "seedQueue universe preds") auto
  from assms(1) ps sq have "(relaxTurn succs ^^ n) (L0, q0) = (L, q)"
    by (simp add: stateAfter_def)
  from turns_level[OF seedQueue_zero[OF sq] this assms(2)] show ?thesis .
qed

subsection \<open>Cyclic input\<close>

text \<open>
  A loop that has ended within \<open>2 ^ 53\<close> turns, where all levels are exact, has reached no
  element of a cycle.
\<close>

lemma stateAfter_no_reached_cycle:
  assumes "n \<le> 2 ^ 53" and "stateAfter n universe covers = (L, [])" and "a \<in> dom L"
  shows "(a, a) \<notin> (in_edges universe covers)\<^sup>+"
proof -
  from assms(2) have "relaxedLevels universe covers = Some L"
    unfolding relaxedLevels_Some_iff by blast
  from relaxedLevels_no_reached_cycle[OF this assms(3)] show ?thesis .
qed

text \<open>
  On the universe \<open>[a]\<close> with the cover \<open>(a, a)\<close> no element has in-degree zero, the
  fallback puts \<open>a\<close> on level 0 and queues it, and each turn of the loop raises the level of
  \<open>a\<close> by one and queues it again: the loop is still running after \<open>2 ^ 53\<close> turns.
\<close>

lemma self_loop_stateAfter:
  "n \<le> 2 ^ 53 \<Longrightarrow> stateAfter n [''a''] [(''a'', ''a'')] = (Map.empty(''a'' \<mapsto> n), [''a''])"
proof (induction n)
  case 0
  show ?case
    by (simp add: stateAfter_def buildPredsSuccs_def initSets_def addEdge_def set_add_def
        adj_get_def seedQueue_def seedStep_def fun_eq_iff)
next
  case (Suc n)
  from Suc.prems have "n \<le> 2 ^ 53" by simp
  from Suc.IH[OF this]
  have IH: "stateAfter n [''a''] [(''a'', ''a'')] = (Map.empty(''a'' \<mapsto> n), [''a''])" .
  have b: "buildPredsSuccs [''a''] [(''a'', ''a'')] = ([(''a'', [''a''])], [(''a'', [''a''])])"
    by (simp add: buildPredsSuccs_def initSets_def addEdge_def set_add_def adj_get_def)
  have "stateAfter (Suc n) [''a''] [(''a'', ''a'')] =
          relaxTurn [(''a'', [''a''])] (stateAfter n [''a''] [(''a'', ''a'')])"
    by (simp add: stateAfter_def b)
  also have "\<dots> = (Map.empty(''a'' \<mapsto> Suc n), [''a''])"
    unfolding IH by (simp add: relaxTurn_def relaxNode_def relaxEdge_def adj_get_def)
  finally show ?case .
qed

text \<open>
  The universe \<open>[a, b]\<close> with the four covers \<open>(a, a)\<close>, \<open>(a, b)\<close>, \<open>(b, a)\<close>, \<open>(b, b)\<close>:
  every turn takes one element from the queue, raises both levels by one and queues both
  elements.
\<close>

lemma cycle2_buildPredsSuccs:
  "buildPredsSuccs [''a'', ''b''] [(''a'', ''a''), (''a'', ''b''), (''b'', ''a''), (''b'', ''b'')] =
     ([(''a'', [''a'', ''b'']), (''b'', [''a'', ''b''])],
      [(''a'', [''a'', ''b'']), (''b'', [''a'', ''b''])])"
  by (simp add: buildPredsSuccs_def initSets_def addEdge_def set_add_def adj_get_def)

lemma cycle2_seedQueue:
  "seedQueue [''a'', ''b''] [(''a'', [''a'', ''b'']), (''b'', [''a'', ''b''])] =
     (Map.empty(''a'' \<mapsto> 0), [''a''])"
  by (simp add: seedQueue_def seedStep_def adj_get_def)

lemma cycle2_relaxTurn:
  assumes "L ''a'' = Some n" "L ''b'' = Some n" "v = ''a'' \<or> v = ''b''"
  shows "relaxTurn [(''a'', [''a'', ''b'']), (''b'', [''a'', ''b''])] (L, v # rest) =
           (L(''a'' \<mapsto> n + 1, ''b'' \<mapsto> n + 1), rest @ [''a'', ''b''])"
  using assms by (auto simp: relaxTurn_def relaxNode_def relaxEdge_def adj_get_def)

lemma cycle2_turns:
  "\<exists>L q. stateAfter (Suc n) [''a'', ''b''] [(''a'', ''a''), (''a'', ''b''), (''b'', ''a''), (''b'', ''b'')] = (L, q) \<and>
     L ''a'' = Some (Suc n) \<and> L ''b'' = Some (Suc n) \<and> set q \<subseteq> {''a'', ''b''} \<and> length q = Suc n + 1"
proof (induction n)
  case 0
  show ?case
    by (simp add: stateAfter_def cycle2_buildPredsSuccs cycle2_seedQueue relaxTurn_def relaxNode_def relaxEdge_def adj_get_def)
next
  case (Suc n)
  then obtain L q where st: "stateAfter (Suc n) [''a'', ''b''] [(''a'', ''a''), (''a'', ''b''), (''b'', ''a''), (''b'', ''b'')] = (L, q)"
    and L: "L ''a'' = Some (Suc n)" "L ''b'' = Some (Suc n)"
    and q: "set q \<subseteq> {''a'', ''b''}" "length q = Suc n + 1" by blast
  from q obtain v rest where vr: "q = v # rest" by (cases q) auto
  with q have v: "v = ''a'' \<or> v = ''b''" and r: "set rest \<subseteq> {''a'', ''b''}" "length rest = Suc n" by auto
  have "stateAfter (Suc (Suc n)) [''a'', ''b''] [(''a'', ''a''), (''a'', ''b''), (''b'', ''a''), (''b'', ''b'')] =
        relaxTurn [(''a'', [''a'', ''b'']), (''b'', [''a'', ''b''])] (L, q)"
    using st by (simp add: stateAfter_def cycle2_buildPredsSuccs)
  also have "\<dots> = (L(''a'' \<mapsto> Suc n + 1, ''b'' \<mapsto> Suc n + 1), rest @ [''a'', ''b''])"
    unfolding vr by (rule cycle2_relaxTurn[OF L v])
  finally show ?case using r by simp
qed

text \<open>
  Claim C2 says that \<open>layoutHasse\<close> ends on every input, cycles included, in a time
  bounded by the sizes of the universe and of the cover list, and gives every element a
  position. On the universe \<open>[a, b]\<close> with the covers \<open>(a, a)\<close>, \<open>(a, b)\<close>, \<open>(b, a)\<close>,
  \<open>(b, b)\<close> no element has in-degree zero, the fallback puts \<open>a\<close> on level 0 and queues it,
  and after \<open>n\<close> turns of the loop both levels are \<open>n\<close> and the queue holds \<open>n + 1\<close>
  entries, for every \<open>n \<ge> 1\<close> as long as the queue fits an array of the source
  (\<open>n + 1 < 2 ^ 32\<close>; the levels are exact there). The loop ends on an empty queue only, so
  it has not ended when the queue has reached the largest length of an array.
\<close>

theorem layoutHasse_cycle_queue_grows:
  "1 \<le> n \<Longrightarrow> n + 1 < 2 ^ 32 \<Longrightarrow>
     fst (stateAfter n [''a'', ''b''] [(''a'', ''a''), (''a'', ''b''), (''b'', ''a''), (''b'', ''b'')]) ''a'' = Some n \<and>
     fst (stateAfter n [''a'', ''b''] [(''a'', ''a''), (''a'', ''b''), (''b'', ''a''), (''b'', ''b'')]) ''b'' = Some n \<and>
     length (snd (stateAfter n [''a'', ''b''] [(''a'', ''a''), (''a'', ''b''), (''b'', ''a''), (''b'', ''b'')])) = n + 1"
proof -
  assume "1 \<le> n"
  then obtain m where m: "n = Suc m" by (cases n) auto
  from cycle2_turns[of m] show ?thesis unfolding m by auto
qed

theorem layoutHasse_cycle_queue_grows_witness:
  "fst (stateAfter 3 [''a'', ''b''] [(''a'', ''a''), (''a'', ''b''), (''b'', ''a''), (''b'', ''b'')]) ''a'' = Some 3 \<and>
   fst (stateAfter 3 [''a'', ''b''] [(''a'', ''a''), (''a'', ''b''), (''b'', ''a''), (''b'', ''b'')]) ''b'' = Some 3 \<and>
   length (snd (stateAfter 3 [''a'', ''b''] [(''a'', ''a''), (''a'', ''b''), (''b'', ''a''), (''b'', ''b'')])) = 4"
  using layoutHasse_cycle_queue_grows[of 3] by simp

subsection \<open>The positions\<close>

lemma groupStep_lev:
  "groupStep L u gs =
     AList.update (lev L u) ((case map_of gs (lev L u) of None \<Rightarrow> [] | Some us \<Rightarrow> us) @ [u]) gs"
  by (simp add: groupStep_def Let_def lev_def)

lemma groupStep_ok:
  assumes "groups_ok L gs"
  shows "groups_ok L (groupStep L u gs)"
    and "\<exists>us. map_of (groupStep L u gs) (lev L u) = Some us \<and> u \<in> set us"
    and "\<And>l us. map_of gs l = Some us \<Longrightarrow>
           \<exists>us'. map_of (groupStep L u gs) l = Some us' \<and> set us \<subseteq> set us'"
    and "\<And>l us' x. map_of (groupStep L u gs) l = Some us' \<Longrightarrow> x \<in> set us' \<Longrightarrow>
           x = u \<or> (\<exists>us. map_of gs l = Some us \<and> x \<in> set us)"
proof -
  let ?k = "lev L u"
  let ?old = "case map_of gs ?k of None \<Rightarrow> [] | Some us \<Rightarrow> us"
  have m: "map_of (groupStep L u gs) = (map_of gs)(?k \<mapsto> ?old @ [u])"
    by (simp add: groupStep_lev update_conv')
  have old: "\<forall>x \<in> set ?old. lev L x = ?k"
    using assms by (auto simp: groups_ok_def split: option.splits)
  have d: "distinct (map fst (groupStep L u gs))"
    using assms unfolding groupStep_lev groups_ok_def by (simp add: distinct_update)
  have "\<forall>x \<in> set us. lev L x = l" if "map_of (groupStep L u gs) l = Some us" for l us
  proof (cases "l = ?k")
    case True
    with that have "us = ?old @ [u]" unfolding m by simp
    with old True show ?thesis by auto
  next
    case False
    with that have "map_of gs l = Some us" unfolding m by simp
    with assms show ?thesis unfolding groups_ok_def by blast
  qed
  with d show "groups_ok L (groupStep L u gs)" unfolding groups_ok_def by blast
  show "\<exists>us. map_of (groupStep L u gs) (lev L u) = Some us \<and> u \<in> set us"
    unfolding m by simp
  show "\<exists>us'. map_of (groupStep L u gs) l = Some us' \<and> set us \<subseteq> set us'"
    if "map_of gs l = Some us" for l us
    unfolding m using that by auto
  show "x = u \<or> (\<exists>us. map_of gs l = Some us \<and> x \<in> set us)"
    if "map_of (groupStep L u gs) l = Some us'" "x \<in> set us'" for l us' x
    using that unfolding m by (auto split: if_splits option.splits)
qed

lemma fold_groupStep_ok:
  "groups_ok L gs \<Longrightarrow>
     groups_ok L (fold (groupStep L) U gs) \<and>
     (\<forall>u \<in> set U. \<exists>us. map_of (fold (groupStep L) U gs) (lev L u) = Some us \<and> u \<in> set us) \<and>
     (\<forall>l us. map_of gs l = Some us \<longrightarrow>
        (\<exists>us'. map_of (fold (groupStep L) U gs) l = Some us' \<and> set us \<subseteq> set us')) \<and>
     (\<forall>l us' x. map_of (fold (groupStep L) U gs) l = Some us' \<longrightarrow> x \<in> set us' \<longrightarrow>
        x \<in> set U \<or> (\<exists>us. map_of gs l = Some us \<and> x \<in> set us))"
proof (induction U arbitrary: gs)
  case Nil
  then show ?case by simp
next
  case (Cons u U)
  note S = groupStep_ok[OF Cons.prems, where u = u]
  note IH = Cons.IH[OF S(1)]
  show ?case
  proof (intro conjI ballI allI impI)
    show "groups_ok L (fold (groupStep L) (u # U) gs)" using IH by simp
  next
    fix x assume "x \<in> set (u # U)"
    then consider "x = u" | "x \<in> set U" by auto
    then show "\<exists>us. map_of (fold (groupStep L) (u # U) gs) (lev L x) = Some us \<and> x \<in> set us"
    proof cases
      case 1
      from S(2) obtain us where "map_of (groupStep L u gs) (lev L u) = Some us" "u \<in> set us"
        by blast
      with IH 1 show ?thesis by (auto dest!: spec)
    next
      case 2
      with IH show ?thesis by simp
    qed
  next
    fix l us assume "map_of gs l = Some us"
    from S(3)[OF this] obtain us1 where u1: "map_of (groupStep L u gs) l = Some us1"
      "set us \<subseteq> set us1" by blast
    with IH obtain us' where "map_of (fold (groupStep L) U (groupStep L u gs)) l = Some us'"
      "set us1 \<subseteq> set us'" by blast
    with u1 show "\<exists>us'. map_of (fold (groupStep L) (u # U) gs) l = Some us' \<and> set us \<subseteq> set us'"
      by auto
  next
    fix l us' x
    assume a: "map_of (fold (groupStep L) (u # U) gs) l = Some us'" "x \<in> set us'"
    with IH have "x \<in> set U \<or> (\<exists>us. map_of (groupStep L u gs) l = Some us \<and> x \<in> set us)"
      by simp
    with S(4) show "x \<in> set (u # U) \<or> (\<exists>us. map_of gs l = Some us \<and> x \<in> set us)"
      by auto
  qed
qed

lemma sortedLevels_groups:
  shows "(l, us) \<in> set (sortedLevels U L) \<Longrightarrow> x \<in> set us \<Longrightarrow> x \<in> set U \<and> lev L x = l"
    and "u \<in> set U \<Longrightarrow> \<exists>l us. (l, us) \<in> set (sortedLevels U L) \<and> u \<in> set us"
proof -
  have ok0: "groups_ok L []" by (simp add: groups_ok_def)
  note F = fold_groupStep_ok[OF ok0, of U]
  let ?gs = "fold (groupStep L) U []"
  have d: "distinct (map fst ?gs)" using F by (simp add: groups_ok_def)
  { assume "(l, us) \<in> set (sortedLevels U L)" and x: "x \<in> set us"
    then have "map_of ?gs l = Some us" using d by (simp add: sortedLevels_def)
    with F x show "x \<in> set U \<and> lev L x = l" by (auto simp: groups_ok_def) }
  { assume "u \<in> set U"
    with F obtain us where "map_of ?gs (lev L u) = Some us" "u \<in> set us" by blast
    then have "(lev L u, us) \<in> set (sortedLevels U L)"
      by (auto simp: sortedLevels_def dest: map_of_SomeD)
    with \<open>u \<in> set us\<close> show "\<exists>l us. (l, us) \<in> set (sortedLevels U L) \<and> u \<in> set us" by blast }
qed

lemma placeLevel_set:
  "p \<in> set (placeLevel V M (l, us)) \<longleftrightarrow>
     (\<exists>i < length us. p = \<lparr>node_id = us ! i, pos_x = (of_nat i + 1) * (600 / (of_nat (length us) + 1)),
        pos_y = (of_nat M - of_nat l + 1) * V\<rparr>)"
  by (auto simp: placeLevel_def Let_def in_set_enumerate_eq image_iff Bex_def)

lemma positions_set:
  "p \<in> set (positions U L) \<longleftrightarrow>
     (\<exists>(l, us) \<in> set (sortedLevels U L). p \<in> set (placeLevel (vStep_of U L) (maxLevel_of U L) (l, us)))"
  by (auto simp: positions_def Let_def vStep_of_def maxLevel_of_def)

lemma positions_props:
  shows "p \<in> set (positions U L) \<Longrightarrow>
           node_id p \<in> set U \<and>
           pos_y p = (of_nat (maxLevel_of U L) - of_nat (lev L (node_id p)) + 1) * vStep_of U L"
    and "u \<in> set U \<Longrightarrow> \<exists>p \<in> set (positions U L). node_id p = u"
proof -
  { assume "p \<in> set (positions U L)"
    then obtain l us i where g: "(l, us) \<in> set (sortedLevels U L)" and i: "i < length us"
      and p: "p = \<lparr>node_id = us ! i, pos_x = (of_nat i + 1) * (600 / (of_nat (length us) + 1)),
        pos_y = (of_nat (maxLevel_of U L) - of_nat l + 1) * vStep_of U L\<rparr>"
      unfolding positions_set placeLevel_set by blast
    from i have "us ! i \<in> set us" by simp
    from sortedLevels_groups(1)[OF g this] p
    show "node_id p \<in> set U \<and>
           pos_y p = (of_nat (maxLevel_of U L) - of_nat (lev L (node_id p)) + 1) * vStep_of U L"
      by simp }
  { assume "u \<in> set U"
    from sortedLevels_groups(2)[OF this] obtain l us where g: "(l, us) \<in> set (sortedLevels U L)"
      and u: "u \<in> set us" by blast
    from u obtain i where i: "i < length us" "us ! i = u" by (auto simp: in_set_conv_nth)
    let ?p = "\<lparr>node_id = us ! i, pos_x = (of_nat i + 1) * (600 / (of_nat (length us) + 1)),
        pos_y = (of_nat (maxLevel_of U L) - of_nat l + 1) * vStep_of U L\<rparr>"
    have "?p \<in> set (positions U L)" unfolding positions_set placeLevel_set using g i(1) by blast
    with i(2) show "\<exists>p \<in> set (positions U L). node_id p = u" by force }
qed


text \<open>
  A call that returns gives every element of the universe a position, and no other.
\<close>

lemma layoutHasse_positions_cover:
  assumes "layoutHasse universe covers = Some ps"
  shows "node_id ` set ps = set universe"
proof -
  from assms obtain L where "ps = positions universe L"
    by (auto simp: layoutHasse_def)
  then show ?thesis using positions_props[of _ universe L] by force
qed

subsection \<open>Edges point upward\<close>





end
